theory Spec2Isabelle
  imports
    Complex_Main
    "HOL-Library.Char_ord"
    "HOL-Library.List_Lexorder"
    "HOL-Library.Product_Lexorder"
begin

section \<open>Python text primitives\<close>

text \<open>
  Python \<open>str\<close> values are modelled as \<open>string\<close>: a list of characters with code points
  0..255. The character classes below are the ones Python 3 uses on that range
  (\<open>str.isspace\<close>, the \<open>\\s\<close>, \<open>\\d\<close> and \<open>\\w\<close> classes of \<open>re\<close> on \<open>str\<close> patterns).
\<close>

definition is_digit :: "char \<Rightarrow> bool" where
  "is_digit c = (c \<in> set ''0123456789'')"

definition is_space :: "char \<Rightarrow> bool" where
  "is_space c = (of_char c \<in> set [9, 10, 11, 12, 13, 28, 29, 30, 31, 32, 133, 160 :: nat])"

definition is_alpha :: "char \<Rightarrow> bool" where
  "is_alpha c = (let n = of_char c :: nat in
     (65 \<le> n \<and> n \<le> 90) \<or> (97 \<le> n \<and> n \<le> 122) \<or> n = 170 \<or> n = 181 \<or> n = 186 \<or>
     (192 \<le> n \<and> n \<le> 214) \<or> (216 \<le> n \<and> n \<le> 246) \<or> (248 \<le> n \<and> n \<le> 255))"

definition is_word :: "char \<Rightarrow> bool" where
  "is_word c = (let n = of_char c :: nat in
     is_alpha c \<or> is_digit c \<or> c = CHR ''_'' \<or>
     n = 178 \<or> n = 179 \<or> n = 185 \<or> n = 188 \<or> n = 189 \<or> n = 190)"

definition digit_val :: "char \<Rightarrow> nat" where
  "digit_val c = of_char c - 48"

text \<open>\<open>s.startswith(p)\<close>\<close>

definition startswith :: "string \<Rightarrow> string \<Rightarrow> bool" where
  "startswith s p = (take (length p) s = p)"

text \<open>\<open>s.strip()\<close>: whitespace removed at both ends.\<close>

definition strip :: "string \<Rightarrow> string" where
  "strip s = rev (dropWhile is_space (rev (dropWhile is_space s)))"

text \<open>\<open>s.split(c)\<close> for a one-character separator: empty pieces are kept.\<close>

fun split_on :: "char \<Rightarrow> string \<Rightarrow> string list" where
  "split_on c [] = [[]]"
| "split_on c (x # xs) =
     (if x = c then [] # split_on c xs
      else (case split_on c xs of [] \<Rightarrow> [[x]] | w # ws \<Rightarrow> (x # w) # ws))"

text \<open>
  \<open>int(s)\<close> on a \<open>str\<close>: surrounding whitespace is dropped, one sign is allowed, then decimal
  digits, where single underscores may stand between two digits. Anything else is a
  \<open>ValueError\<close>, here \<open>None\<close>. Python integers are unbounded, so the value is an \<open>int\<close>.
\<close>

fun parse_digits :: "bool \<Rightarrow> nat \<Rightarrow> string \<Rightarrow> nat option" where
  "parse_digits d acc [] = (if d then Some acc else None)"
| "parse_digits d acc (c # cs) =
     (if is_digit c then parse_digits True (10 * acc + digit_val c) cs
      else if c = CHR ''_'' \<and> d then parse_digits False acc cs
      else None)"

definition py_int :: "string \<Rightarrow> int option" where
  "py_int s =
     (case strip s of
        [] \<Rightarrow> None
      | c # cs \<Rightarrow>
          if c = CHR ''-'' then map_option (\<lambda>n. - int n) (parse_digits False 0 cs)
          else if c = CHR ''+'' then map_option int (parse_digits False 0 cs)
          else map_option int (parse_digits False 0 (c # cs)))"

section \<open>transform.py: the private-range test\<close>

text \<open>
  \<open>LogTransformer._is_internal_ip\<close>. The \<open>try\<close> block catches \<open>IndexError\<close> (no second
  component) and \<open>ValueError\<close> (a second component that \<open>int\<close> rejects); both give \<open>False\<close>.
\<close>

definition LogTransformer_is_internal_ip :: "string \<Rightarrow> bool" where
  "LogTransformer_is_internal_ip ip =
     (if startswith ip ''192.168.'' \<or> startswith ip ''10.'' then True
      else if startswith ip ''172.'' then
        (case split_on CHR ''.'' ip of
           _ # second # _ \<Rightarrow>
             (case py_int second of
                Some second_octet \<Rightarrow> 16 \<le> second_octet \<and> second_octet \<le> 31
              | None \<Rightarrow> False)
         | _ \<Rightarrow> False)
      else False)"

text \<open>Decimal rendering of an octet, and a dotted-decimal IPv4 literal built from four.\<close>

definition digit_char :: "nat \<Rightarrow> char" where
  "digit_char n = ''0123456789'' ! n"

fun dec :: "nat \<Rightarrow> string" where
  "dec n = (if n < 10 then [digit_char n] else dec (n div 10) @ [digit_char (n mod 10)])"

declare dec.simps [simp del]



text \<open>The value of a digit string, read left to right from an accumulator.\<close>

definition digits_value :: "nat \<Rightarrow> string \<Rightarrow> nat" where
  "digits_value acc ds = foldl (\<lambda>a c. 10 * a + digit_val c) acc ds"

section \<open>The event table\<close>

text \<open>
  One row of the DataFrame that \<open>transform_logs\<close> builds and every detector reads. Only
  the columns that a detector reads are kept; \<open>timestamp\<close> is in whole seconds (the log
  format has second resolution). A DataFrame is the list of its rows in index order.
\<close>

record event =
  timestamp :: int
  status :: string
  username :: string
  source_ip :: string
  port :: int
  pid :: int
  is_failed_login :: bool
  is_internal_ip :: bool

type_synonym dataframe = "event list"

datatype severity = MEDIUM | HIGH | CRITICAL

text \<open>
  pandas primitives. \<open>Series.unique()\<close> keeps the first occurrence of each value, in order
  of appearance. \<open>groupby(key)\<close> lists the distinct keys in ascending order, and each group
  keeps its rows in their original order.
\<close>

definition unique :: "'a list \<Rightarrow> 'a list" where
  "unique xs = rev (remdups (rev xs))"

definition group_keys :: "('a \<Rightarrow> 'k::linorder) \<Rightarrow> 'a list \<Rightarrow> 'k list" where
  "group_keys f xs = sort (remdups (map f xs))"

definition group_rows :: "('a \<Rightarrow> 'k) \<Rightarrow> 'k \<Rightarrow> 'a list \<Rightarrow> 'a list" where
  "group_rows f k xs = filter (\<lambda>x. f x = k) xs"

text \<open>The \<open>min\<close> and \<open>max\<close> aggregates of a group; a group always has a row.\<close>

fun list_min :: "int list \<Rightarrow> int" where
  "list_min [] = 0"
| "list_min (x # xs) = fold min xs x"

fun list_max :: "int list \<Rightarrow> int" where
  "list_max [] = 0"
| "list_max (x # xs) = fold max xs x"

section \<open>detect_anomalies.py\<close>

record detector =
  brute_force_threshold :: int
  time_window_minutes :: int

subsection \<open>detect_brute_force\<close>

text \<open>
  The float arithmetic of the source (\<open>total_seconds() / 60\<close>, the rate, \<open>threshold / 2\<close>) is
  carried out exactly, over the rationals.
\<close>

record bf_row =
  bf_source_ip :: string
  failed_count :: nat
  first_attempt :: int
  last_attempt :: int
  targeted_users :: "string list"
  duration_minutes :: rat
  attempts_per_hour :: rat
  bf_severity :: "severity option"
  num_users_targeted :: nat

text \<open>\<open>pd.cut(failed_count, bins=[0, 25, 50, inf])\<close>: right-closed bins, no label outside them.\<close>

definition cut_severity :: "nat \<Rightarrow> severity option" where
  "cut_severity n =
     (if 0 < n \<and> n \<le> 25 then Some MEDIUM
      else if 25 < n \<and> n \<le> 50 then Some HIGH
      else if 50 < n then Some CRITICAL
      else None)"

text \<open>One aggregated row per ip of the failed logins, with the two derived columns.\<close>

definition bf_aggregate :: "dataframe \<Rightarrow> string \<Rightarrow> bf_row" where
  "bf_aggregate failed_logins ip =
     (let g = group_rows source_ip ip failed_logins;
          cnt = length g;
          first = list_min (map timestamp g);
          last = list_max (map timestamp g);
          users = unique (map username g);
          dur = rat_of_int (last - first) / 60;
          aph = (if dur > 0 then rat_of_nat cnt / (dur / 60) else rat_of_nat cnt)
      in \<lparr>bf_source_ip = ip, failed_count = cnt, first_attempt = first, last_attempt = last,
          targeted_users = users, duration_minutes = dur, attempts_per_hour = aph,
          bf_severity = None, num_users_targeted = 0\<rparr>)"

definition bf_flagged :: "detector \<Rightarrow> bf_row \<Rightarrow> bool" where
  "bf_flagged det r =
     (int (failed_count r) \<ge> brute_force_threshold det \<or>
      (attempts_per_hour r \<ge> rat_of_int (brute_force_threshold det) / 2 \<and>
       duration_minutes r \<le> rat_of_int (time_window_minutes det)))"

definition detect_brute_force :: "detector \<Rightarrow> dataframe \<Rightarrow> bf_row list" where
  "detect_brute_force det df =
     (if df = [] then []
      else
        let failed_logins = filter is_failed_login df in
        if failed_logins = [] then []
        else
          let grouped = map (bf_aggregate failed_logins) (group_keys source_ip failed_logins);
              brute_force = filter (bf_flagged det) grouped
          in if brute_force = [] then []
             else map (\<lambda>r. r\<lparr>bf_severity := cut_severity (failed_count r),
                                num_users_targeted := length (targeted_users r)\<rparr>) brute_force)"

subsection \<open>detect_unusual_usernames\<close>

record va_row =
  va_source_ip :: string
  va_username :: string
  attempts :: nat
  va_severity :: severity

definition vulnerable_accounts :: "string list" where
  "vulnerable_accounts =
     [''root'', ''admin'', ''test'', ''oracle'', ''postgres'',
      ''mysql'', ''ubuntu'', ''user'', ''guest'', ''ftp'']"

definition detect_unusual_usernames :: "dataframe \<Rightarrow> va_row list" where
  "detect_unusual_usernames df =
     (if df = [] then []
      else
        let hits = filter (\<lambda>e. username e \<in> set vulnerable_accounts \<and> is_failed_login e) df;
            key = (\<lambda>e. (source_ip e, username e));
            counted = map (\<lambda>k. (k, length (group_rows key k hits))) (group_keys key hits);
            suspicious_users = filter (\<lambda>(k, n). n \<ge> 5) counted
        in if suspicious_users = [] then []
           else map (\<lambda>((ip, u), n).
                  \<lparr>va_source_ip = ip, va_username = u, attempts = n,
                   va_severity = (if n > 20 then HIGH else MEDIUM)\<rparr>) suspicious_users)"

subsection \<open>detect_geographic_anomalies\<close>

record geo_row =
  geo_source_ip :: string
  location :: string
  total_attempts :: nat
  failed_attempts :: nat
  success_attempts :: int
  geo_severity :: severity

text \<open>The dict literal, in insertion order: iteration over a Python dict follows it.\<close>

definition suspicious_ranges :: "(string \<times> string) list" where
  "suspicious_ranges =
     [(''45.'', ''Eastern Europe''),
      (''103.'', ''Southeast Asia''),
      (''185.'', ''Europe/Tor''),
      (''91.'', ''Central Asia''),
      (''196.'', ''Africa''),
      (''41.'', ''Africa'')]"

text \<open>The inner \<open>for\<close> loop with its \<open>break\<close>: the first prefix that matches, if any.\<close>

fun first_range :: "(string \<times> string) list \<Rightarrow> string \<Rightarrow> (string \<times> string) option" where
  "first_range [] ip = None"
| "first_range ((prefix, loc) # rest) ip =
     (if startswith ip prefix then Some (prefix, loc) else first_range rest ip)"

definition geo_record :: "dataframe \<Rightarrow> string \<Rightarrow> string \<Rightarrow> geo_row" where
  "geo_record df ip loc =
     (let ip_logs = filter (\<lambda>e. source_ip e = ip) df;
          n = length ip_logs;
          failed = length (filter is_failed_login ip_logs)
      in \<lparr>geo_source_ip = ip, location = loc, total_attempts = n, failed_attempts = failed,
          success_attempts = int n - int failed,
          geo_severity = (if failed > 10 then HIGH else MEDIUM)\<rparr>)"

text \<open>The outer loop, with its two accumulators \<open>geo_anomalies\<close> and \<open>seen_ips\<close>.\<close>

fun geo_loop :: "dataframe \<Rightarrow> string list \<Rightarrow> geo_row list \<Rightarrow> string list \<Rightarrow> geo_row list" where
  "geo_loop df [] geo_anomalies seen_ips = geo_anomalies"
| "geo_loop df (ip # ips) geo_anomalies seen_ips =
     (if ip \<in> set seen_ips then geo_loop df ips geo_anomalies seen_ips
      else (case first_range suspicious_ranges ip of
              Some (prefix, loc) \<Rightarrow>
                geo_loop df ips (geo_anomalies @ [geo_record df ip loc]) (ip # seen_ips)
            | None \<Rightarrow> geo_loop df ips geo_anomalies seen_ips))"

definition detect_geographic_anomalies :: "dataframe \<Rightarrow> geo_row list" where
  "detect_geographic_anomalies df =
     (if df = [] then []
      else
        let external_ips = unique (map source_ip (filter (\<lambda>e. \<not> is_internal_ip e) df))
        in geo_loop df external_ips [] [])"







definition accepted_event :: "int \<Rightarrow> string \<Rightarrow> string \<Rightarrow> event" where
  "accepted_event t u ip =
     \<lparr>timestamp = t, status = ''Accepted'', username = u, source_ip = ip, port = 22, pid = 1,
      is_failed_login = False, is_internal_ip = LogTransformer_is_internal_ip ip\<rparr>"

subsection \<open>detect_successful_after_many_failures\<close>

record breach_row =
  br_source_ip :: string
  br_username :: string
  failed_attempts_before_success :: nat
  breach_timestamp :: int
  br_severity :: severity

text \<open>
  \<open>df.sort_values(['source_ip', 'timestamp'])\<close>: pandas sorts on several columns with a
  stable lexicographic sort, so rows with equal keys keep their input order.
\<close>

definition sort_values :: "dataframe \<Rightarrow> dataframe" where
  "sort_values df = sort_key (\<lambda>e. (source_ip e, timestamp e)) df"

text \<open>
  \<open>(~is_failed_login).groupby(source_ip).cumsum()\<close>: for each row, the number of rows that
  are not failed logins among the rows of the same ip up to and including it. The
  accumulator holds the running count of each ip.
\<close>

fun cumsum_success :: "(string \<Rightarrow> nat) \<Rightarrow> dataframe \<Rightarrow> nat list" where
  "cumsum_success acc [] = []"
| "cumsum_success acc (e # es) =
     (let n = acc (source_ip e) + (if is_failed_login e then 0 else 1)
      in n # cumsum_success (acc(source_ip e := n)) es)"

text \<open>The rows of \<open>df_sorted[df_sorted['cumsum_success'] == 0]\<close>.\<close>

definition pre_success_rows :: "dataframe \<Rightarrow> dataframe" where
  "pre_success_rows df_sorted =
     map fst (filter (\<lambda>(e, c). c = 0) (zip df_sorted (cumsum_success (\<lambda>ip. 0) df_sorted)))"

definition detect_successful_after_many_failures :: "dataframe \<Rightarrow> breach_row list" where
  "detect_successful_after_many_failures df =
     (if df = [] then []
      else
        let df_sorted = sort_values df;
            pre = pre_success_rows df_sorted;
            successful = filter (\<lambda>e. \<not> is_failed_login e) df_sorted
        in concat (map (\<lambda>ip.
             let failed_count = length (group_rows source_ip ip pre)
             in if failed_count \<ge> 5 \<and> ip \<in> set (group_keys source_ip successful)
                then (case group_rows source_ip ip successful of
                        [] \<Rightarrow> []
                      | breach_info # _ \<Rightarrow>
                          [\<lparr>br_source_ip = ip, br_username = username breach_info,
                            failed_attempts_before_success = failed_count,
                            breach_timestamp = timestamp breach_info,
                            br_severity = (if failed_count > 20 then CRITICAL else HIGH)\<rparr>])
                else [])
             (group_keys source_ip pre)))"

text \<open>
  The breach rule in the words of the specification: the events of one ip in chronological
  order, ties kept in input order; the number of events before the first Accepted one.
\<close>

definition ip_events :: "dataframe \<Rightarrow> string \<Rightarrow> event list" where
  "ip_events df ip = sort_key timestamp (filter (\<lambda>e. source_ip e = ip) df)"

definition first_accepted :: "dataframe \<Rightarrow> string \<Rightarrow> event option" where
  "first_accepted df ip = find (\<lambda>e. \<not> is_failed_login e) (ip_events df ip)"

definition failures_before_success :: "dataframe \<Rightarrow> string \<Rightarrow> nat" where
  "failures_before_success df ip = length (takeWhile is_failed_login (ip_events df ip))"

subsection \<open>generate_full_report\<close>

text \<open>
  The report dict. Its \<open>summary\<close> entry is itself a dict, kept as the list of its items in
  insertion order; \<open>map_of\<close> looks a key up.
\<close>

record report =
  brute_force_attacks :: "bf_row list"
  vulnerable_account_targeting :: "va_row list"
  geographic_anomalies :: "geo_row list"
  possible_breaches :: "breach_row list"
  summary :: "(string \<times> int) list"

definition generate_full_report :: "detector \<Rightarrow> dataframe \<Rightarrow> report" where
  "generate_full_report det df =
     (if df = [] then
        \<lparr>brute_force_attacks = [], vulnerable_account_targeting = [],
         geographic_anomalies = [], possible_breaches = [],
         summary = [(''total_anomalies'', 0), (''critical_threats'', 0)]\<rparr>
      else
        let brute_force = detect_brute_force det df;
            vulnerable = detect_unusual_usernames df;
            geo = detect_geographic_anomalies df;
            breaches = detect_successful_after_many_failures df;
            total_anomalies = int (length brute_force) + int (length vulnerable) +
                              int (length geo) + int (length breaches);
            critical_count = int (length breaches);
            critical_count =
              (if brute_force \<noteq> []
               then critical_count +
                    int (length (filter (\<lambda>r. bf_severity r = Some CRITICAL) brute_force))
               else critical_count)
        in \<lparr>brute_force_attacks = brute_force, vulnerable_account_targeting = vulnerable,
            geographic_anomalies = geo, possible_breaches = breaches,
            summary = [(''total_anomalies'', total_anomalies),
                       (''critical_threats'', critical_count),
                       (''brute_force_count'', int (length brute_force)),
                       (''vulnerable_account_count'', int (length vulnerable)),
                       (''geographic_count'', int (length geo)),
                       (''breach_count'', int (length breaches))]\<rparr>)"

section \<open>Regular expressions\<close>

text \<open>
  The fragment of Python's \<open>re\<close> that the two patterns of the parser use: a character class,
  a greedy \<open>+\<close> over a character class, concatenation, ordered alternation and a numbered
  capture group. Matching is the backtracking search of \<open>re\<close>: \<open>mt r s c k\<close> matches \<open>r\<close> at
  the start of \<open>s\<close> and hands the rest of the input and the captures to the continuation
  \<open>k\<close>; when \<open>k\<close> fails, the next way to match \<open>r\<close> is tried. Captures are the list of
  (group number, text) pairs, newest first.
\<close>

datatype rx =
    Eps
  | Cls "char \<Rightarrow> bool"
  | Plus "char \<Rightarrow> bool"
  | Cat rx rx
  | Or rx rx
  | Grp nat rx

type_synonym captures = "(nat \<times> string) list"

text \<open>Greedy \<open>p+\<close>: take as many characters as possible, give them back one at a time.\<close>

fun plus_from :: "(char \<Rightarrow> bool) \<Rightarrow> string \<Rightarrow> (string \<Rightarrow> 'r option) \<Rightarrow> 'r option" where
  "plus_from p [] k = None"
| "plus_from p (x # xs) k =
     (if p x then (case plus_from p xs k of Some r \<Rightarrow> Some r | None \<Rightarrow> k xs) else None)"

primrec mt :: "rx \<Rightarrow> string \<Rightarrow> captures \<Rightarrow> (string \<Rightarrow> captures \<Rightarrow> 'r option) \<Rightarrow> 'r option" where
  "mt Eps s c k = k s c"
| "mt (Cls p) s c k = (case s of [] \<Rightarrow> None | x # xs \<Rightarrow> if p x then k xs c else None)"
| "mt (Plus p) s c k = plus_from p s (\<lambda>s'. k s' c)"
| "mt (Cat a b) s c k = mt a s c (\<lambda>s' c'. mt b s' c' k)"
| "mt (Or a b) s c k = (case mt a s c k of Some r \<Rightarrow> Some r | None \<Rightarrow> mt b s c k)"
| "mt (Grp i a) s c k = mt a s c (\<lambda>s' c'. k s' ((i, take (length s - length s') s) # c'))"

text \<open>\<open>pattern.search(s)\<close>: the first start position, from the left, at which a match exists.\<close>

fun search :: "rx \<Rightarrow> string \<Rightarrow> captures option" where
  "search r [] = mt r [] [] (\<lambda>s' c. Some c)"
| "search r (x # xs) =
     (case mt r (x # xs) [] (\<lambda>s' c. Some c) of Some c \<Rightarrow> Some c | None \<Rightarrow> search r xs)"

text \<open>\<open>match.group(i)\<close> of a group that took part in the match.\<close>

definition group :: "captures \<Rightarrow> nat \<Rightarrow> string" where
  "group c i = (case map_of c i of Some w \<Rightarrow> w | None \<Rightarrow> [])"

definition seq :: "rx list \<Rightarrow> rx" where
  "seq rs = foldr Cat rs Eps"

definition lit :: "string \<Rightarrow> rx" where
  "lit w = seq (map (\<lambda>ch. Cls (\<lambda>x. x = ch)) w)"

fun alts :: "rx list \<Rightarrow> rx" where
  "alts [] = Cls (\<lambda>x. False)"
| "alts [r] = r"
| "alts (r # rs) = Or r (alts rs)"

section \<open>transform.py: parsing one line\<close>

text \<open>
  \<open>LOG_PATTERN\<close>, piece by piece as in the source. Groups: 1 month, 2 day, 3 time, 4 pid,
  5 status, 6 username, 7 ip, 8 port.
\<close>

definition is_user_char :: "char \<Rightarrow> bool" where
  "is_user_char x = (is_word x \<or> x = CHR ''.'' \<or> x = CHR ''-'' \<or> x = CHR ''_'')"

definition is_ip_char :: "char \<Rightarrow> bool" where
  "is_ip_char x = (is_digit x \<or> x = CHR ''.'')"

definition LOG_PATTERN :: rx where
  "LOG_PATTERN = seq
     [Grp 1 (Plus is_word), Plus is_space,
      Grp 2 (Plus is_digit), Plus is_space,
      Grp 3 (seq [Plus is_digit, lit '':'', Plus is_digit, lit '':'', Plus is_digit]),
      Plus is_space, Plus is_word, Plus is_space,
      lit ''sshd['', Grp 4 (Plus is_digit), lit '']:'', Plus is_space,
      Grp 5 (Or (lit ''Accepted'') (lit ''Failed'')), Plus is_space,
      lit ''password'', Plus is_space, lit ''for'', Plus is_space,
      Grp 6 (Plus is_user_char), Plus is_space,
      lit ''from'', Plus is_space,
      Grp 7 (Plus is_ip_char), Plus is_space,
      lit ''port'', Plus is_space,
      Grp 8 (Plus is_digit)]"

text \<open>
  \<open>datetime.strptime(text, "%Y %b %d %H:%M:%S")\<close>, as CPython's \<open>_strptime\<close> carries it
  out in the C locale: the format becomes one regular expression (a run of whitespace in
  the format stands for \<open>\\s+\<close>, letters compare without case), the text is matched
  from its start, text left over after the match is an error, and the fields found go to
  the \<open>datetime\<close> constructor, which checks their ranges. Every failure is a
  \<open>ValueError\<close>, here \<open>None\<close>. Groups: 1 \<open>%Y\<close>, 2 \<open>%b\<close>, 3 \<open>%d\<close>, 4 \<open>%H\<close>, 5 \<open>%M\<close>, 6 \<open>%S\<close>.
\<close>

record datetime =
  dt_year :: int
  dt_month :: int
  dt_day :: int
  dt_hour :: int
  dt_minute :: int
  dt_second :: int

definition month_names :: "string list" where
  "month_names = [''jan'', ''feb'', ''mar'', ''apr'', ''may'', ''jun'',
                  ''jul'', ''aug'', ''sep'', ''oct'', ''nov'', ''dec'']"

definition lower_of :: "char \<Rightarrow> char" where
  "lower_of ch =
     (case map_of (zip ''ABCDEFGHIJKLMNOPQRSTUVWXYZ'' ''abcdefghijklmnopqrstuvwxyz'') ch of
        Some l \<Rightarrow> l | None \<Rightarrow> ch)"

text \<open>
  A literal of lower-case letters under \<open>re.IGNORECASE\<close>: a character matches when its
  lower-case form is the letter.
\<close>

definition ci_lit :: "string \<Rightarrow> rx" where
  "ci_lit w = seq (map (\<lambda>ch. Cls (\<lambda>x. lower_of x = ch)) w)"

definition one_of :: "string \<Rightarrow> rx" where
  "one_of chars = Cls (\<lambda>x. x \<in> set chars)"

definition year_rx :: rx where
  "year_rx = seq [Cls is_digit, Cls is_digit, Cls is_digit, Cls is_digit]"

definition month_rx :: rx where
  "month_rx = alts (map ci_lit month_names)"

definition day_rx :: rx where
  "day_rx = alts [seq [one_of ''3'', one_of ''01''],
                  seq [one_of ''12'', Cls is_digit],
                  seq [one_of ''0'', one_of ''123456789''],
                  one_of ''123456789'',
                  seq [one_of '' '', one_of ''123456789'']]"

definition hour_rx :: rx where
  "hour_rx = alts [seq [one_of ''2'', one_of ''0123''],
                   seq [one_of ''01'', Cls is_digit],
                   Cls is_digit]"

definition minute_rx :: rx where
  "minute_rx = alts [seq [one_of ''012345'', Cls is_digit], Cls is_digit]"

definition second_rx :: rx where
  "second_rx = alts [seq [one_of ''6'', one_of ''01''],
                     seq [one_of ''012345'', Cls is_digit],
                     Cls is_digit]"

definition strptime_rx :: rx where
  "strptime_rx = seq
     [Grp 1 year_rx, Plus is_space,
      Grp 2 month_rx, Plus is_space,
      Grp 3 day_rx, Plus is_space,
      Grp 4 hour_rx, lit '':'',
      Grp 5 minute_rx, lit '':'',
      Grp 6 second_rx]"

text \<open>\<open>a_month.index(found['b'].lower())\<close>: the month number, from 1.\<close>

fun index_of :: "'a list \<Rightarrow> 'a \<Rightarrow> nat option" where
  "index_of [] y = None"
| "index_of (x # xs) y = (if x = y then Some 0 else map_option Suc (index_of xs y))"

definition month_number :: "string \<Rightarrow> int option" where
  "month_number w = map_option (\<lambda>i. int i + 1) (index_of month_names (map lower_of w))"

definition is_leap :: "int \<Rightarrow> bool" where
  "is_leap y = (y mod 4 = 0 \<and> (y mod 100 \<noteq> 0 \<or> y mod 400 = 0))"

definition days_in_month :: "int \<Rightarrow> int \<Rightarrow> int" where
  "days_in_month y m =
     (if m = 2 then (if is_leap y then 29 else 28)
      else if m = 4 \<or> m = 6 \<or> m = 9 \<or> m = 11 then 30 else 31)"

text \<open>The \<open>datetime\<close> constructor: a \<open>ValueError\<close> unless every field is in range.\<close>

definition make_datetime :: "int \<Rightarrow> int \<Rightarrow> int \<Rightarrow> int \<Rightarrow> int \<Rightarrow> int \<Rightarrow> datetime option" where
  "make_datetime y m d h mi s =
     (if 1 \<le> y \<and> y \<le> 9999 \<and> 1 \<le> m \<and> m \<le> 12 \<and> 1 \<le> d \<and> d \<le> days_in_month y m \<and>
         0 \<le> h \<and> h \<le> 23 \<and> 0 \<le> mi \<and> mi \<le> 59 \<and> 0 \<le> s \<and> s \<le> 59
      then Some \<lparr>dt_year = y, dt_month = m, dt_day = d,
                 dt_hour = h, dt_minute = mi, dt_second = s\<rparr>
      else None)"

definition strptime :: "string \<Rightarrow> datetime option" where
  "strptime data_string =
     (case mt strptime_rx data_string [] (\<lambda>s' c. Some (s', c)) of
        None \<Rightarrow> None
      | Some (rest, found) \<Rightarrow>
          if rest \<noteq> [] then None
          else (case (py_int (group found 1), month_number (group found 2),
                      py_int (group found 3), py_int (group found 4),
                      py_int (group found 5), py_int (group found 6)) of
                  (Some y, Some m, Some d, Some h, Some mi, Some s) \<Rightarrow> make_datetime y m d h mi s
                | _ \<Rightarrow> None))"

text \<open>\<open>str(n)\<close> of an integer, as the f-string renders the year.\<close>

definition py_str :: "int \<Rightarrow> string" where
  "py_str n = (if n < 0 then CHR ''-'' # dec (nat (- n)) else dec (nat n))"

text \<open>
  The transformer object. \<open>__init__\<close> takes the optional year; \<open>year or datetime.now().year\<close>
  falls back to the current year (a parameter here) for \<open>None\<close> and also for 0.
\<close>

record LogTransformer =
  lt_parsed_count :: nat
  lt_failed_count :: nat
  lt_failed_samples :: "string list"
  lt_year :: int

definition LogTransformer_init :: "int option \<Rightarrow> int \<Rightarrow> LogTransformer" where
  "LogTransformer_init year now_year =
     \<lparr>lt_parsed_count = 0, lt_failed_count = 0, lt_failed_samples = [],
      lt_year = (case year of None \<Rightarrow> now_year | Some y \<Rightarrow> if y = 0 then now_year else y)\<rparr>"

record parsed_log =
  pl_timestamp :: datetime
  pl_status :: string
  pl_username :: string
  pl_source_ip :: string
  pl_port :: int
  pl_pid :: int

text \<open>
  \<open>parse_log_line\<close> returns the dict or \<open>None\<close>, and may append to \<open>failed_samples\<close>. The
  text of a caught exception is the library's; \<open>exc_text\<close> gives it for the text whose
  conversion failed.
\<close>

definition add_sample :: "LogTransformer \<Rightarrow> string \<Rightarrow> LogTransformer" where
  "add_sample self sample =
     (if lt_failed_count self < 5
      then self\<lparr>lt_failed_samples := lt_failed_samples self @ [sample]\<rparr>
      else self)"

definition parse_log_line ::
    "(string \<Rightarrow> string) \<Rightarrow> LogTransformer \<Rightarrow> string \<Rightarrow> parsed_log option \<times> LogTransformer" where
  "parse_log_line exc_text self log_line =
     (case search LOG_PATTERN log_line of
        None \<Rightarrow> (None, add_sample self (strip log_line))
      | Some m \<Rightarrow>
          let month = group m 1; day = group m 2; time = group m 3; pid_text = group m 4;
              status_text = group m 5; username_text = group m 6; ip = group m 7;
              port_text = group m 8;
              timestamp_str = py_str (lt_year self) @ '' '' @ month @ '' '' @ day @ '' '' @ time
          in (case strptime timestamp_str of
                None \<Rightarrow>
                  (None, add_sample self
                     (strip log_line @ '' [Error: '' @ exc_text timestamp_str @ '']''))
              | Some stamp \<Rightarrow>
                  (case py_int port_text of
                     None \<Rightarrow>
                       (None, add_sample self
                          (strip log_line @ '' [Error: '' @ exc_text port_text @ '']''))
                   | Some port_n \<Rightarrow>
                       (case py_int pid_text of
                          None \<Rightarrow>
                            (None, add_sample self
                               (strip log_line @ '' [Error: '' @ exc_text pid_text @ '']''))
                        | Some pid_n \<Rightarrow>
                            (Some \<lparr>pl_timestamp = stamp, pl_status = status_text,
                                   pl_username = username_text, pl_source_ip = ip,
                                   pl_port = port_n, pl_pid = pid_n\<rparr>, self)))))"

section \<open>transform.py: transform_logs\<close>

text \<open>
  The timestamp column in seconds: the day number of the proleptic Gregorian calendar, as
  \<open>date.toordinal\<close> counts it, times 86400, plus the time of day.
\<close>

definition days_before_year :: "int \<Rightarrow> int" where
  "days_before_year y = (y - 1) * 365 + (y - 1) div 4 - (y - 1) div 100 + (y - 1) div 400"

definition days_before_month :: "int \<Rightarrow> int \<Rightarrow> int" where
  "days_before_month y m = sum_list (map (days_in_month y) [1..m - 1])"

definition datetime_seconds :: "datetime \<Rightarrow> int" where
  "datetime_seconds t =
     (days_before_year (dt_year t) + days_before_month (dt_year t) (dt_month t) + dt_day t) * 86400 +
     dt_hour t * 3600 + dt_minute t * 60 + dt_second t"

text \<open>One row of the DataFrame, with the derived columns that the detectors read.\<close>

definition to_event :: "parsed_log \<Rightarrow> event" where
  "to_event p =
     \<lparr>timestamp = datetime_seconds (pl_timestamp p), status = pl_status p,
      username = pl_username p, source_ip = pl_source_ip p,
      port = pl_port p, pid = pl_pid p,
      is_failed_login = (pl_status p = ''Failed''),
      is_internal_ip = LogTransformer_is_internal_ip (pl_source_ip p)\<rparr>"

text \<open>The \<open>for\<close> loop over the raw lines, with \<open>parsed_logs\<close> and the object as its state.\<close>

fun transform_loop ::
    "(string \<Rightarrow> string) \<Rightarrow> LogTransformer \<Rightarrow> string list \<Rightarrow> parsed_log list \<Rightarrow>
     parsed_log list \<times> LogTransformer" where
  "transform_loop exc_text self [] parsed_logs = (parsed_logs, self)"
| "transform_loop exc_text self (log_line # rest) parsed_logs =
     (case parse_log_line exc_text self log_line of
        (Some parsed, self') \<Rightarrow>
          transform_loop exc_text (self'\<lparr>lt_parsed_count := lt_parsed_count self' + 1\<rparr>) rest
            (parsed_logs @ [parsed])
      | (None, self') \<Rightarrow>
          transform_loop exc_text (self'\<lparr>lt_failed_count := lt_failed_count self' + 1\<rparr>) rest
            parsed_logs)"

definition transform_logs ::
    "(string \<Rightarrow> string) \<Rightarrow> LogTransformer \<Rightarrow> string list \<Rightarrow> dataframe \<times> LogTransformer" where
  "transform_logs exc_text self raw_logs =
     (case transform_loop exc_text self raw_logs [] of
        (parsed_logs, self') \<Rightarrow>
          if parsed_logs = [] then ([], self') else (map to_event parsed_logs, self'))"

text \<open>
  What \<open>parse_log_line\<close> returns for a line, as a function of the year alone (the counters
  and the sample buffer do not influence the returned value), and the lines of an input
  that it rejects.
\<close>

definition parse_outcome :: "int \<Rightarrow> string \<Rightarrow> parsed_log option" where
  "parse_outcome yr log_line =
     fst (parse_log_line (\<lambda>t. [])
            \<lparr>lt_parsed_count = 0, lt_failed_count = 0, lt_failed_samples = [], lt_year = yr\<rparr>
            log_line)"

definition rejected_lines :: "int \<Rightarrow> string list \<Rightarrow> string list" where
  "rejected_lines yr raw_logs = filter (\<lambda>l. parse_outcome yr l = None) raw_logs"

definition accepted_records :: "int \<Rightarrow> string list \<Rightarrow> parsed_log list" where
  "accepted_records yr raw_logs =
     concat (map (\<lambda>l. case parse_outcome yr l of None \<Rightarrow> [] | Some p \<Rightarrow> [p]) raw_logs)"


fun lang :: "rx \<Rightarrow> string set" where
  "lang Eps = {[]}"
| "lang (Cls p) = {w. \<exists>x. w = [x] \<and> p x}"
| "lang (Plus p) = {w. w \<noteq> [] \<and> list_all p w}"
| "lang (Cat a b) = {w. \<exists>u v. w = u @ v \<and> u \<in> lang a \<and> v \<in> lang b}"
| "lang (Or a b) = lang a \<union> lang b"
| "lang (Grp i a) = lang a"

text \<open>
  The matches of a regular expression together with the captures they leave (newest first),
  the texts a given group can capture, the groups that take part in every match, and the
  expressions without a group.
\<close>

fun caplang :: "rx \<Rightarrow> (string \<times> captures) set" where
  "caplang Eps = {([], [])}"
| "caplang (Cls p) = {(w, ca). ca = [] \<and> (\<exists>x. w = [x] \<and> p x)}"
| "caplang (Plus p) = {(w, ca). ca = [] \<and> w \<noteq> [] \<and> list_all p w}"
| "caplang (Cat a b) =
     {(w, ca). \<exists>u v ca1 ca2. w = u @ v \<and> ca = ca2 @ ca1 \<and>
                 (u, ca1) \<in> caplang a \<and> (v, ca2) \<in> caplang b}"
| "caplang (Or a b) = caplang a \<union> caplang b"
| "caplang (Grp i a) = {(w, ca). \<exists>ca1. ca = (i, w) # ca1 \<and> (w, ca1) \<in> caplang a}"

fun glang :: "rx \<Rightarrow> nat \<Rightarrow> string set" where
  "glang Eps i = {}"
| "glang (Cls p) i = {}"
| "glang (Plus p) i = {}"
| "glang (Cat a b) i = glang a i \<union> glang b i"
| "glang (Or a b) i = glang a i \<union> glang b i"
| "glang (Grp j a) i = (if i = j then lang a else {}) \<union> glang a i"

fun must_groups :: "rx \<Rightarrow> nat set" where
  "must_groups Eps = {}"
| "must_groups (Cls p) = {}"
| "must_groups (Plus p) = {}"
| "must_groups (Cat a b) = must_groups a \<union> must_groups b"
| "must_groups (Or a b) = must_groups a \<inter> must_groups b"
| "must_groups (Grp j a) = insert j (must_groups a)"

fun gfree :: "rx \<Rightarrow> bool" where
  "gfree Eps = True"
| "gfree (Cls p) = True"
| "gfree (Plus p) = True"
| "gfree (Cat a b) = (gfree a \<and> gfree b)"
| "gfree (Or a b) = (gfree a \<and> gfree b)"
| "gfree (Grp j a) = False"

text \<open>
  The date check in the words of the specification, on the month, day and time texts of a
  match: the month is an English abbreviation in any letter case, the day is one or two
  digits and a day of that month in the given year, and the time is an hour up to 23, a
  minute up to 59 and a second up to 59, each of one or two digits.
\<close>

definition spec_timestamp :: "int \<Rightarrow> string \<Rightarrow> string \<Rightarrow> string \<Rightarrow> datetime option" where
  "spec_timestamp yr month day time =
     (case month_number month of
        None \<Rightarrow> None
      | Some mo \<Rightarrow>
          (case split_on CHR '':'' time of
             [hh, mm, ss] \<Rightarrow>
               if length day \<le> 2 \<and> 1 \<le> digits_value 0 day \<and>
                  int (digits_value 0 day) \<le> days_in_month yr mo \<and>
                  length hh \<le> 2 \<and> digits_value 0 hh \<le> 23 \<and>
                  length mm \<le> 2 \<and> digits_value 0 mm \<le> 59 \<and>
                  length ss \<le> 2 \<and> digits_value 0 ss \<le> 59
               then Some \<lparr>dt_year = yr, dt_month = mo, dt_day = int (digits_value 0 day),
                          dt_hour = int (digits_value 0 hh), dt_minute = int (digits_value 0 mm),
                          dt_second = int (digits_value 0 ss)\<rparr>
               else None
           | _ \<Rightarrow> None))"

section \<open>Verified properties\<close>

subsection \<open>Decimal text\<close>










lemma not_space_digit: "is_digit c \<Longrightarrow> \<not> is_space c"
  by (auto simp: is_digit_def is_space_def)








lemma startswith_Nil_Cons: "startswith [] (y # p) = False"
  by (simp add: startswith_def)














subsection \<open>C4: the private-range test\<close>



subsection \<open>Grouping\<close>

lemma set_group_keys: "set (group_keys f xs) = f ` set xs"
  by (simp add: group_keys_def)

lemma distinct_group_keys: "distinct (group_keys f xs)"
  by (simp add: group_keys_def)

lemma set_unique: "set (unique xs) = set xs"
  by (simp add: unique_def)

lemma distinct_unique: "distinct (unique xs)"
  by (simp add: unique_def)

lemma group_rows_nonempty: "(group_rows f k xs \<noteq> []) = (k \<in> f ` set xs)"
  by (auto simp: group_rows_def filter_empty_conv)

subsection \<open>C6: well-known account names\<close>

lemma detect_unusual_usernames_rows:
  "detect_unusual_usernames df =
     map (\<lambda>(ip, u).
            \<lparr>va_source_ip = ip, va_username = u,
             attempts = length (filter (\<lambda>e. (source_ip e, username e) = (ip, u))
                          (filter (\<lambda>e. username e \<in> set vulnerable_accounts \<and> is_failed_login e) df)),
             va_severity =
               (if length (filter (\<lambda>e. (source_ip e, username e) = (ip, u))
                     (filter (\<lambda>e. username e \<in> set vulnerable_accounts \<and> is_failed_login e) df)) > 20
                then HIGH else MEDIUM)\<rparr>)
         (filter (\<lambda>k. length (filter (\<lambda>e. (source_ip e, username e) = k)
                     (filter (\<lambda>e. username e \<in> set vulnerable_accounts \<and> is_failed_login e) df)) \<ge> 5)
            (group_keys (\<lambda>e. (source_ip e, username e))
               (filter (\<lambda>e. username e \<in> set vulnerable_accounts \<and> is_failed_login e) df)))"
  by (cases "df = []")
     (simp_all add: detect_unusual_usernames_def Let_def group_rows_def group_keys_def
        filter_map comp_def case_prod_unfold)

lemma va_count_eq:
  "length (filter (\<lambda>e. (source_ip e, username e) = (ip, u))
      (filter (\<lambda>e. username e \<in> set vulnerable_accounts \<and> is_failed_login e) df)) =
   (if u \<in> set vulnerable_accounts
    then length (filter (\<lambda>e. source_ip e = ip \<and> username e = u \<and> is_failed_login e) df)
    else 0)"
  by (induction df) auto

lemma positive_count_is_key:
  "0 < length (filter (\<lambda>e. f e = k) xs) \<Longrightarrow> k \<in> set (group_keys f xs)"
  by (auto simp: set_group_keys filter_empty_conv)

text \<open>
  C6. The result has one row per (source_ip, username) pair, and a row is in the result
  exactly when its username is one of the ten well-known names, its attempts is the number
  of Failed events of that pair, that number is at least 5, and its severity is HIGH above
  20 attempts and MEDIUM otherwise. Accepted events are not counted.
\<close>

theorem C6_detect_unusual_usernames:
  "distinct (map (\<lambda>r. (va_source_ip r, va_username r)) (detect_unusual_usernames df)) \<and>
   ((r \<in> set (detect_unusual_usernames df)) =
      (va_username r \<in> {''root'', ''admin'', ''test'', ''oracle'', ''postgres'',
                         ''mysql'', ''ubuntu'', ''user'', ''guest'', ''ftp''} \<and>
       attempts r = length (filter (\<lambda>e. source_ip e = va_source_ip r \<and>
                                        username e = va_username r \<and> is_failed_login e) df) \<and>
       5 \<le> attempts r \<and>
       va_severity r = (if 20 < attempts r then HIGH else MEDIUM)))"
proof -
  define hits where "hits = filter (\<lambda>e. username e \<in> set vulnerable_accounts \<and> is_failed_login e) df"
  define cnt where "cnt = (\<lambda>k. length (filter (\<lambda>e. (source_ip e, username e) = k) hits))"
  define row where "row = (\<lambda>k. \<lparr>va_source_ip = fst k, va_username = snd k, attempts = cnt k,
                                va_severity = (if cnt k > 20 then HIGH else MEDIUM)\<rparr>)"
  define keys where "keys = filter (\<lambda>k. cnt k \<ge> 5) (group_keys (\<lambda>e. (source_ip e, username e)) hits)"
  have res: "detect_unusual_usernames df = map row keys"
    unfolding detect_unusual_usernames_rows row_def keys_def cnt_def hits_def
    by (simp add: case_prod_unfold)
  have "map (\<lambda>r. (va_source_ip r, va_username r)) (map row keys) = keys"
    by (simp add: row_def comp_def)
  moreover have "distinct keys"
    unfolding keys_def by (simp add: distinct_group_keys)
  ultimately have d: "distinct (map (\<lambda>r. (va_source_ip r, va_username r)) (detect_unusual_usernames df))"
    by (simp only: res)
  have cnt_eq: "cnt (ip, u) = (if u \<in> set vulnerable_accounts
      then length (filter (\<lambda>e. source_ip e = ip \<and> username e = u \<and> is_failed_login e) df) else 0)" for ip u
    unfolding cnt_def hits_def by (rule va_count_eq)
  have keys_iff: "(k \<in> set keys) = (5 \<le> cnt k)" for k
  proof
    assume "k \<in> set keys" then show "5 \<le> cnt k" by (simp add: keys_def)
  next
    assume a: "5 \<le> cnt k"
    then have "0 < length (filter (\<lambda>e. (source_ip e, username e) = k) hits)"
      unfolding cnt_def by arith
    then have "k \<in> set (group_keys (\<lambda>e. (source_ip e, username e)) hits)"
      by (rule positive_count_is_key)
    with a show "k \<in> set keys" by (simp add: keys_def)
  qed
  have vs: "set vulnerable_accounts = {''root'', ''admin'', ''test'', ''oracle'', ''postgres'',
                         ''mysql'', ''ubuntu'', ''user'', ''guest'', ''ftp''}"
    by (simp add: vulnerable_accounts_def)
  have m: "(r \<in> set (detect_unusual_usernames df)) =
      (va_username r \<in> set vulnerable_accounts \<and>
       attempts r = length (filter (\<lambda>e. source_ip e = va_source_ip r \<and>
                                        username e = va_username r \<and> is_failed_login e) df) \<and>
       5 \<le> attempts r \<and>
       va_severity r = (if 20 < attempts r then HIGH else MEDIUM))" (is "?L = ?R")
  proof
    assume ?L
    then obtain k where k: "k \<in> set keys" "r = row k" by (auto simp: res)
    obtain ip u where ku: "k = (ip, u)" by (cases k)
    from k keys_iff have c5: "5 \<le> cnt (ip, u)" by (simp add: ku)
    with cnt_eq[of ip u] have u: "u \<in> set vulnerable_accounts" by (auto split: if_splits)
    with cnt_eq[of ip u] have
      "cnt (ip, u) = length (filter (\<lambda>e. source_ip e = ip \<and> username e = u \<and> is_failed_login e) df)"
      by simp
    with k ku u c5 show ?R by (simp add: row_def)
  next
    assume R: ?R
    let ?k = "(va_source_ip r, va_username r)"
    from R cnt_eq[of "va_source_ip r" "va_username r"] have c: "cnt ?k = attempts r" by simp
    with R have "?k \<in> set keys" by (simp add: keys_iff)
    moreover from R c have "r = row ?k" by (simp add: row_def)
    ultimately show ?L by (auto simp: res)
  qed
  from d m vs show ?thesis by simp
qed

subsection \<open>C5: geographic heuristic\<close>

lemma first_range_find:
  "first_range rs ip = find (\<lambda>(prefix, loc). startswith ip prefix) rs"
  by (induction rs ip rule: first_range.induct) auto

lemma geo_loop_rows:
  "distinct ips \<Longrightarrow> set ips \<inter> set seen = {} \<Longrightarrow>
   geo_loop df ips acc seen =
     acc @ concat (map (\<lambda>ip. case first_range suspicious_ranges ip of
                                 Some (prefix, loc) \<Rightarrow> [geo_record df ip loc]
                               | None \<Rightarrow> []) ips)"
proof (induction ips arbitrary: acc seen)
  case Nil
  then show ?case by simp
next
  case (Cons ip ips)
  from Cons.prems have ns: "ip \<notin> set seen" and d: "distinct ips" and ni: "ip \<notin> set ips"
    and dj: "set ips \<inter> set seen = {}" by auto
  show ?case
  proof (cases "first_range suspicious_ranges ip")
    case None
    with ns Cons.IH[OF d dj, of acc] show ?thesis by simp
  next
    case (Some pl)
    obtain prefix loc where pl: "pl = (prefix, loc)" by (cases pl)
    from ni dj have "set ips \<inter> set (ip # seen) = {}" by auto
    from Cons.IH[OF d this, of "acc @ [geo_record df ip loc]"] ns Some pl
    show ?thesis by simp
  qed
qed

lemma geo_record_ip [simp]: "geo_source_ip (geo_record df ip loc) = ip"
  by (simp add: geo_record_def Let_def)

lemma geo_rows_ips:
  "map geo_source_ip (concat (map (\<lambda>ip. case first_range suspicious_ranges ip of
                                 Some (prefix, loc) \<Rightarrow> [geo_record df ip loc]
                               | None \<Rightarrow> []) ips)) =
   filter (\<lambda>ip. first_range suspicious_ranges ip \<noteq> None) ips"
  by (induction ips) (auto split: option.splits)

lemma detect_geographic_rows:
  "detect_geographic_anomalies df =
     concat (map (\<lambda>ip. case first_range suspicious_ranges ip of
                          Some (prefix, loc) \<Rightarrow> [geo_record df ip loc]
                        | None \<Rightarrow> [])
       (unique (map source_ip (filter (\<lambda>e. \<not> is_internal_ip e) df))))"
proof (cases "df = []")
  case True
  then show ?thesis by (simp add: detect_geographic_anomalies_def unique_def)
next
  case False
  then show ?thesis
    using geo_loop_rows[of "unique (map source_ip (filter (\<lambda>e. \<not> is_internal_ip e) df))" "[]" df "[]"]
    by (simp add: detect_geographic_anomalies_def distinct_unique)
qed

text \<open>
  C5. The result has at most one row per source_ip. A row is in the result exactly when
  its ip has an event that is not internal, the first entry of the prefix table (in table
  order) whose prefix starts the ip text carries the row's location, and the row counts all
  events of that ip: total_attempts all of them, failed_attempts the Failed ones,
  success_attempts the difference, with severity HIGH above 10 failures and MEDIUM
  otherwise. An ip with no external event, or one that matches no prefix, has no row.
\<close>

theorem C5_detect_geographic_anomalies:
  "distinct (map geo_source_ip (detect_geographic_anomalies df)) \<and>
   ((r \<in> set (detect_geographic_anomalies df)) =
      (geo_source_ip r \<in> source_ip ` {e \<in> set df. \<not> is_internal_ip e} \<and>
       (\<exists>prefix. find (\<lambda>(prefix, loc). startswith (geo_source_ip r) prefix)
            [(''45.'', ''Eastern Europe''), (''103.'', ''Southeast Asia''),
             (''185.'', ''Europe/Tor''), (''91.'', ''Central Asia''),
             (''196.'', ''Africa''), (''41.'', ''Africa'')] = Some (prefix, location r)) \<and>
       total_attempts r = length (filter (\<lambda>e. source_ip e = geo_source_ip r) df) \<and>
       failed_attempts r =
         length (filter (\<lambda>e. source_ip e = geo_source_ip r \<and> is_failed_login e) df) \<and>
       success_attempts r = int (total_attempts r) - int (failed_attempts r) \<and>
       geo_severity r = (if 10 < failed_attempts r then HIGH else MEDIUM)))"
proof -
  define ips where "ips = unique (map source_ip (filter (\<lambda>e. \<not> is_internal_ip e) df))"
  define g where "g = (\<lambda>ip. case first_range suspicious_ranges ip of
                          Some (prefix, loc) \<Rightarrow> [geo_record df ip loc]
                        | None \<Rightarrow> [])"
  have res: "detect_geographic_anomalies df = concat (map g ips)"
    unfolding g_def ips_def by (rule detect_geographic_rows)
  have "map geo_source_ip (concat (map g ips)) =
          filter (\<lambda>ip. first_range suspicious_ranges ip \<noteq> None) ips"
    unfolding g_def by (rule geo_rows_ips)
  moreover have "distinct ips" by (simp add: ips_def distinct_unique)
  ultimately have d: "distinct (map geo_source_ip (detect_geographic_anomalies df))"
    by (simp add: res)
  have set_ips: "set ips = source_ip ` {e \<in> set df. \<not> is_internal_ip e}"
    by (simp add: ips_def set_unique)
  have tab: "suspicious_ranges = [(''45.'', ''Eastern Europe''), (''103.'', ''Southeast Asia''),
             (''185.'', ''Europe/Tor''), (''91.'', ''Central Asia''),
             (''196.'', ''Africa''), (''41.'', ''Africa'')]"
    by (simp add: suspicious_ranges_def)
  have mem: "(r \<in> set (concat (map g ips))) =
      (geo_source_ip r \<in> set ips \<and>
       (\<exists>prefix. first_range suspicious_ranges (geo_source_ip r) = Some (prefix, location r)) \<and>
       r = geo_record df (geo_source_ip r) (location r))" (is "?L = ?R")
  proof
    assume ?L
    then obtain ip where ip: "ip \<in> set ips" "r \<in> set (g ip)" by auto
    have "\<exists>prefix loc. first_range suspicious_ranges ip = Some (prefix, loc) \<and>
            r = geo_record df ip loc"
    proof (cases "first_range suspicious_ranges ip")
      case None
      with ip show ?thesis by (simp add: g_def)
    next
      case (Some pl)
      with ip show ?thesis by (cases pl) (simp add: g_def)
    qed
    then obtain prefix loc where f: "first_range suspicious_ranges ip = Some (prefix, loc)"
      and r: "r = geo_record df ip loc" by blast
    from r have "geo_source_ip r = ip" "location r = loc" by (simp_all add: geo_record_def Let_def)
    with ip f r show ?R by auto
  next
    assume R: ?R
    then obtain prefix where
      "first_range suspicious_ranges (geo_source_ip r) = Some (prefix, location r)" by blast
    then have "g (geo_source_ip r) = [geo_record df (geo_source_ip r) (location r)]"
      by (simp add: g_def)
    with R have "r \<in> set (g (geo_source_ip r))" by simp
    with R show ?L by auto
  qed
  have rec: "(r = geo_record df (geo_source_ip r) (location r)) =
      (total_attempts r = length (filter (\<lambda>e. source_ip e = geo_source_ip r) df) \<and>
       failed_attempts r =
         length (filter (\<lambda>e. source_ip e = geo_source_ip r \<and> is_failed_login e) df) \<and>
       success_attempts r = int (total_attempts r) - int (failed_attempts r) \<and>
       geo_severity r = (if 10 < failed_attempts r then HIGH else MEDIUM))"
    by (cases r) (auto simp: geo_record_def Let_def conj_commute)
  from d mem rec show ?thesis
    unfolding res set_ips[symmetric] first_range_find[symmetric] tab[symmetric] by blast
qed

subsection \<open>C1: brute force\<close>











subsection \<open>C2: success after many failures\<close>

lemma insort_key_same_ip:
  "source_ip x = ip \<Longrightarrow> \<forall>y \<in> set ys. source_ip y = ip \<Longrightarrow>
   insort_key (\<lambda>e. (source_ip e, timestamp e)) x ys = insort_key timestamp x ys"
  by (induction ys) (auto simp: less_eq_prod_def)

lemma sort_key_same_ip:
  "\<forall>y \<in> set ys. source_ip y = ip \<Longrightarrow>
   sort_key (\<lambda>e. (source_ip e, timestamp e)) ys = sort_key timestamp ys"
proof (induction ys)
  case Nil
  then show ?case by simp
next
  case (Cons y ys)
  then have "sort_key (\<lambda>e. (source_ip e, timestamp e)) ys = sort_key timestamp ys" by simp
  moreover from Cons.prems have "source_ip y = ip" "\<forall>z \<in> set (sort_key timestamp ys). source_ip z = ip"
    by simp_all
  ultimately show ?case by (simp add: insort_key_same_ip)
qed

lemma sorted_ip_rows:
  "filter (\<lambda>e. source_ip e = ip) (sort_values df) = ip_events df ip"
  unfolding sort_values_def ip_events_def filter_sort
  by (rule sort_key_same_ip[of _ ip]) simp

text \<open>Ties keep their input order, and the events of one ip come out in time order.\<close>

lemma ip_events_stable:
  "filter (\<lambda>e. timestamp e = t) (ip_events df ip) =
   filter (\<lambda>e. timestamp e = t) (filter (\<lambda>e. source_ip e = ip) df)"
  unfolding ip_events_def by (rule sort_key_stable)

lemma ip_events_sorted: "sorted (map timestamp (ip_events df ip))"
  unfolding ip_events_def by (rule sorted_sort_key)

lemma pre_success_filter:
  "filter (\<lambda>e. source_ip e = ip)
     (map fst (filter (\<lambda>(e, c). c = 0) (zip xs (cumsum_success acc xs)))) =
   (if acc ip = 0 then takeWhile is_failed_login (filter (\<lambda>e. source_ip e = ip) xs) else [])"
proof (induction xs arbitrary: acc)
  case Nil
  then show ?case by simp
next
  case (Cons x xs)
  define n where "n = acc (source_ip x) + (if is_failed_login x then 0 else 1)"
  have n0: "(n = 0) = (acc (source_ip x) = 0 \<and> is_failed_login x)"
    by (simp add: n_def)
  have cs: "cumsum_success acc (x # xs) = n # cumsum_success (acc(source_ip x := n)) xs"
    by (simp add: n_def Let_def)
  define T where "T = filter (\<lambda>e. source_ip e = ip)
       (map fst (filter (\<lambda>(e, c). c = 0) (zip xs (cumsum_success (acc(source_ip x := n)) xs))))"
  have IH: "T = (if (acc(source_ip x := n)) ip = 0
      then takeWhile is_failed_login (filter (\<lambda>e. source_ip e = ip) xs) else [])"
    unfolding T_def by (rule Cons.IH)
  have lhs: "filter (\<lambda>e. source_ip e = ip)
       (map fst (filter (\<lambda>(e, c). c = 0) (zip (x # xs) (cumsum_success acc (x # xs))))) =
     (if n = 0 \<and> source_ip x = ip then [x] else []) @ T"
    unfolding cs T_def by simp
  show ?case
  proof (cases "source_ip x = ip")
    case True
    then have u: "(acc(source_ip x := n)) ip = n" by simp
    from True n0 show ?thesis unfolding lhs IH u by auto
  next
    case False
    then have u: "(acc(source_ip x := n)) ip = acc ip" by simp
    from False show ?thesis unfolding lhs IH u by simp
  qed
qed

lemma pre_success_group:
  "group_rows source_ip ip (pre_success_rows (sort_values df)) =
   takeWhile is_failed_login (ip_events df ip)"
  unfolding group_rows_def pre_success_rows_def
  using pre_success_filter[of ip "sort_values df" "\<lambda>ip. 0"]
  by (simp add: sorted_ip_rows)

lemma successful_group:
  "group_rows source_ip ip (filter (\<lambda>e. \<not> is_failed_login e) (sort_values df)) =
   filter (\<lambda>e. \<not> is_failed_login e) (ip_events df ip)"
proof -
  have "filter (\<lambda>e. source_ip e = ip) (filter (\<lambda>e. \<not> is_failed_login e) (sort_values df)) =
        filter (\<lambda>e. \<not> is_failed_login e) (filter (\<lambda>e. source_ip e = ip) (sort_values df))"
    by (simp add: conj_commute)
  then show ?thesis by (simp only: group_rows_def sorted_ip_rows)
qed

lemma find_filter_hd:
  "find P xs = (case filter P xs of [] \<Rightarrow> None | x # _ \<Rightarrow> Some x)"
  by (induction xs) auto

lemma pre_success_key_iff:
  "(ip \<in> set (group_keys source_ip (pre_success_rows (sort_values df)))) =
   (0 < failures_before_success df ip)"
proof -
  have "(ip \<in> source_ip ` set (pre_success_rows (sort_values df))) =
        (group_rows source_ip ip (pre_success_rows (sort_values df)) \<noteq> [])"
    by (simp only: group_rows_nonempty)
  then show ?thesis
    by (simp add: set_group_keys pre_success_group failures_before_success_def)
qed

lemma successful_key_iff:
  "(ip \<in> set (group_keys source_ip (filter (\<lambda>e. \<not> is_failed_login e) (sort_values df)))) =
   (first_accepted df ip \<noteq> None)"
proof -
  have "(ip \<in> source_ip ` set (filter (\<lambda>e. \<not> is_failed_login e) (sort_values df))) =
        (group_rows source_ip ip (filter (\<lambda>e. \<not> is_failed_login e) (sort_values df)) \<noteq> [])"
    by (simp only: group_rows_nonempty)
  then show ?thesis
    by (simp add: set_group_keys successful_group first_accepted_def find_filter_hd
          split: list.splits)
qed

lemma breach_step:
  "(let failed_count = length (group_rows source_ip ip (pre_success_rows (sort_values df)))
    in if failed_count \<ge> 5 \<and>
          ip \<in> set (group_keys source_ip (filter (\<lambda>e. \<not> is_failed_login e) (sort_values df)))
       then (case group_rows source_ip ip (filter (\<lambda>e. \<not> is_failed_login e) (sort_values df)) of
               [] \<Rightarrow> []
             | breach_info # _ \<Rightarrow>
                 [\<lparr>br_source_ip = ip, br_username = username breach_info,
                   failed_attempts_before_success = failed_count,
                   breach_timestamp = timestamp breach_info,
                   br_severity = (if failed_count > 20 then CRITICAL else HIGH)\<rparr>])
       else []) =
   (case first_accepted df ip of
      None \<Rightarrow> []
    | Some a \<Rightarrow>
        if 5 \<le> failures_before_success df ip
        then [\<lparr>br_source_ip = ip, br_username = username a,
               failed_attempts_before_success = failures_before_success df ip,
               breach_timestamp = timestamp a,
               br_severity = (if 20 < failures_before_success df ip then CRITICAL else HIGH)\<rparr>]
        else [])"
  unfolding successful_key_iff pre_success_group successful_group Let_def
  by (simp add: first_accepted_def failures_before_success_def find_filter_hd split: list.splits)

lemma detect_breach_rows:
  "detect_successful_after_many_failures df =
     concat (map (\<lambda>ip. case first_accepted df ip of
                          None \<Rightarrow> []
                        | Some a \<Rightarrow>
                            if 5 \<le> failures_before_success df ip
                            then [\<lparr>br_source_ip = ip, br_username = username a,
                                   failed_attempts_before_success = failures_before_success df ip,
                                   breach_timestamp = timestamp a,
                                   br_severity = (if 20 < failures_before_success df ip
                                                  then CRITICAL else HIGH)\<rparr>]
                            else [])
       (group_keys source_ip (pre_success_rows (sort_values df))))"
proof (cases "df = []")
  case True
  then show ?thesis
    by (simp add: detect_successful_after_many_failures_def sort_values_def
          pre_success_rows_def group_keys_def)
next
  case False
  then show ?thesis
    unfolding detect_successful_after_many_failures_def
    by (simp only: if_False Let_def[of "sort_values df"] Let_def[of "pre_success_rows (sort_values df)"]
          Let_def[of "filter (\<lambda>e. \<not> is_failed_login e) (sort_values df)"] breach_step)
qed

text \<open>
  C2. Take the events of one ip in chronological order, ties in input order, and let k be
  the number of events before the first Accepted one. The result has at most one row per
  ip, and a row is in the result exactly when its ip has an Accepted event, k is at least
  5, the row's username and breach_timestamp are those of that first Accepted event, its
  failed_attempts_before_success is k, and its severity is CRITICAL above 20 and HIGH
  otherwise. An ip without an Accepted event has no row.
\<close>

theorem C2_detect_successful_after_many_failures:
  "distinct (map br_source_ip (detect_successful_after_many_failures df)) \<and>
   ((r \<in> set (detect_successful_after_many_failures df)) =
      (case first_accepted df (br_source_ip r) of
         None \<Rightarrow> False
       | Some a \<Rightarrow>
           5 \<le> failures_before_success df (br_source_ip r) \<and>
           br_username r = username a \<and>
           breach_timestamp r = timestamp a \<and>
           failed_attempts_before_success r = failures_before_success df (br_source_ip r) \<and>
           br_severity r =
             (if 20 < failures_before_success df (br_source_ip r) then CRITICAL else HIGH)))"
proof -
  define keys where "keys = group_keys source_ip (pre_success_rows (sort_values df))"
  define g where "g = (\<lambda>ip. case first_accepted df ip of
                          None \<Rightarrow> []
                        | Some a \<Rightarrow>
                            if 5 \<le> failures_before_success df ip
                            then [\<lparr>br_source_ip = ip, br_username = username a,
                                   failed_attempts_before_success = failures_before_success df ip,
                                   breach_timestamp = timestamp a,
                                   br_severity = (if 20 < failures_before_success df ip
                                                  then CRITICAL else HIGH)\<rparr>]
                            else [])"
  have res: "detect_successful_after_many_failures df = concat (map g keys)"
    unfolding g_def keys_def by (rule detect_breach_rows)
  have g_ip: "br_source_ip x = ip" if "x \<in> set (g ip)" for x ip
    using that by (auto simp: g_def split: option.splits if_splits)
  have "map br_source_ip (concat (map g ks)) = filter (\<lambda>ip. g ip \<noteq> []) ks" for ks
    by (induction ks) (auto simp: g_def split: option.splits)
  moreover have "distinct keys" by (simp add: keys_def distinct_group_keys)
  ultimately have d: "distinct (map br_source_ip (detect_successful_after_many_failures df))"
    by (simp add: res)
  have key: "ip \<in> set keys" if "g ip \<noteq> []" for ip
  proof -
    from that have "5 \<le> failures_before_success df ip"
      by (auto simp: g_def split: option.splits if_splits)
    then have "0 < failures_before_success df ip" by arith
    then show ?thesis by (simp only: keys_def pre_success_key_iff)
  qed
  have mem: "(r \<in> set (concat (map g keys))) = (r \<in> set (g (br_source_ip r)))"
  proof
    assume "r \<in> set (concat (map g keys))"
    then obtain ip where "ip \<in> set keys" "r \<in> set (g ip)" by auto
    with g_ip[of r ip] show "r \<in> set (g (br_source_ip r))" by simp
  next
    assume a: "r \<in> set (g (br_source_ip r))"
    then have "g (br_source_ip r) \<noteq> []" by auto
    then have "br_source_ip r \<in> set keys" by (rule key)
    with a show "r \<in> set (concat (map g keys))" by auto
  qed
  have row: "(r \<in> set (g (br_source_ip r))) =
      (case first_accepted df (br_source_ip r) of
         None \<Rightarrow> False
       | Some a \<Rightarrow>
           5 \<le> failures_before_success df (br_source_ip r) \<and>
           br_username r = username a \<and>
           breach_timestamp r = timestamp a \<and>
           failed_attempts_before_success r = failures_before_success df (br_source_ip r) \<and>
           br_severity r =
             (if 20 < failures_before_success df (br_source_ip r) then CRITICAL else HIGH))"
    by (cases r) (auto simp: g_def split: option.splits)
  from d mem row show ?thesis by (simp only: res)
qed

subsection \<open>C7 and C8: the report\<close>

lemma detectors_empty:
  "detect_brute_force det [] = []"
  "detect_unusual_usernames [] = []"
  "detect_geographic_anomalies [] = []"
  "detect_successful_after_many_failures [] = []"
  by (simp_all add: detect_brute_force_def detect_unusual_usernames_def
        detect_geographic_anomalies_def detect_successful_after_many_failures_def)

lemma report_collections:
  "brute_force_attacks (generate_full_report det df) = detect_brute_force det df"
  "vulnerable_account_targeting (generate_full_report det df) = detect_unusual_usernames df"
  "geographic_anomalies (generate_full_report det df) = detect_geographic_anomalies df"
  "possible_breaches (generate_full_report det df) = detect_successful_after_many_failures df"
  by (cases "df = []"; simp add: generate_full_report_def Let_def detectors_empty)+

lemma report_total:
  "map_of (summary (generate_full_report det df)) ''total_anomalies'' =
     Some (int (length (detect_brute_force det df)) + int (length (detect_unusual_usernames df)) +
           int (length (detect_geographic_anomalies df)) +
           int (length (detect_successful_after_many_failures df)))"
  by (cases "df = []") (simp_all add: generate_full_report_def Let_def detectors_empty)

lemma report_critical:
  "map_of (summary (generate_full_report det df)) ''critical_threats'' =
     Some (int (length (detect_successful_after_many_failures df)) +
           int (length (filter (\<lambda>r. bf_severity r = Some CRITICAL) (detect_brute_force det df))))"
  by (cases "df = []") (simp_all add: generate_full_report_def Let_def detectors_empty)

text \<open>
  C7. The four collections of the report are the results of the four detectors. The
  summary's total_anomalies is the sum of their sizes and its critical_threats is the
  number of breach rows plus the number of brute-force rows of severity CRITICAL. For the
  empty table the report is the literal of the early return: four empty collections and
  both figures zero, built without a call to a detector.
\<close>

theorem C7_generate_full_report:
  "map_of (summary (generate_full_report det df)) ''total_anomalies'' =
     Some (int (length (brute_force_attacks (generate_full_report det df))) +
           int (length (vulnerable_account_targeting (generate_full_report det df))) +
           int (length (geographic_anomalies (generate_full_report det df))) +
           int (length (possible_breaches (generate_full_report det df)))) \<and>
   map_of (summary (generate_full_report det df)) ''critical_threats'' =
     Some (int (length (possible_breaches (generate_full_report det df))) +
           int (length (filter (\<lambda>r. bf_severity r = Some CRITICAL)
                          (brute_force_attacks (generate_full_report det df))))) \<and>
   brute_force_attacks (generate_full_report det df) = detect_brute_force det df \<and>
   vulnerable_account_targeting (generate_full_report det df) = detect_unusual_usernames df \<and>
   geographic_anomalies (generate_full_report det df) = detect_geographic_anomalies df \<and>
   possible_breaches (generate_full_report det df) = detect_successful_after_many_failures df \<and>
   brute_force_attacks (generate_full_report det []) = [] \<and>
   vulnerable_account_targeting (generate_full_report det []) = [] \<and>
   geographic_anomalies (generate_full_report det []) = [] \<and>
   possible_breaches (generate_full_report det []) = [] \<and>
   map_of (summary (generate_full_report det [])) ''total_anomalies'' = Some 0 \<and>
   map_of (summary (generate_full_report det [])) ''critical_threats'' = Some 0"
  unfolding report_collections report_total report_critical
  by (simp add: detectors_empty)

text \<open>
  C8 does not hold on the code for the empty table: the early return builds a summary
  with the two keys total_anomalies and critical_threats only, while the other return of
  the same function adds the four per-type counts. On a table with at least one row all
  six keys are present and each per-type count is the size of its collection.
\<close>

theorem C8_summary_keys:
  "map summary [generate_full_report det []] =
     [[(''total_anomalies'', 0), (''critical_threats'', 0)]] \<and>
   map_of (summary (generate_full_report det [])) ''brute_force_count'' = None \<and>
   map_of (summary (generate_full_report det [])) ''vulnerable_account_count'' = None \<and>
   map_of (summary (generate_full_report det [])) ''geographic_count'' = None \<and>
   map_of (summary (generate_full_report det [])) ''breach_count'' = None \<and>
   map_of (summary (generate_full_report det (e # es))) ''brute_force_count'' =
     Some (int (length (brute_force_attacks (generate_full_report det (e # es))))) \<and>
   map_of (summary (generate_full_report det (e # es))) ''vulnerable_account_count'' =
     Some (int (length (vulnerable_account_targeting (generate_full_report det (e # es))))) \<and>
   map_of (summary (generate_full_report det (e # es))) ''geographic_count'' =
     Some (int (length (geographic_anomalies (generate_full_report det (e # es))))) \<and>
   map_of (summary (generate_full_report det (e # es))) ''breach_count'' =
     Some (int (length (possible_breaches (generate_full_report det (e # es)))))"
  by (simp add: generate_full_report_def Let_def)

subsection \<open>C9: rejected lines, the failure count and the sample buffer\<close>

lemma add_sample_fields [simp]:
  "lt_year (add_sample self smp) = lt_year self"
  "lt_failed_count (add_sample self smp) = lt_failed_count self"
  "lt_parsed_count (add_sample self smp) = lt_parsed_count self"
  "lt_failed_samples (add_sample self smp) =
     lt_failed_samples self @ (if lt_failed_count self < 5 then [smp] else [])"
  by (simp_all add: add_sample_def)

lemma startswith_self_append: "startswith (w @ v) w"
  by (simp add: startswith_def)

lemma parse_log_line_cases:
  "(\<exists>smp. parse_log_line exc_text self l = (None, add_sample self smp) \<and>
          startswith smp (strip l)) \<or>
   (\<exists>p. parse_log_line exc_text self l = (Some p, self))"
proof -
  have a: "startswith (strip l) (strip l)"
    using startswith_self_append[of "strip l" "[]"] by simp
  show ?thesis
    unfolding parse_log_line_def Let_def
    by (auto split: option.splits intro: a startswith_self_append)
qed

lemma parse_log_line_fst:
  "fst (parse_log_line exc_text self l) = parse_outcome (lt_year self) l"
  unfolding parse_outcome_def parse_log_line_def Let_def
  by (simp split: option.splits)

lemma transform_loop_invariant:
  "\<exists>self' new.
     transform_loop exc_text self raw acc = (acc @ accepted_records (lt_year self) raw, self') \<and>
     lt_year self' = lt_year self \<and>
     lt_failed_count self' = lt_failed_count self + length (rejected_lines (lt_year self) raw) \<and>
     lt_parsed_count self' = lt_parsed_count self + length (accepted_records (lt_year self) raw) \<and>
     lt_failed_samples self' = lt_failed_samples self @ new \<and>
     list_all2 (\<lambda>smp l. startswith smp (strip l)) new
       (take (5 - lt_failed_count self) (rejected_lines (lt_year self) raw))"
proof (induction raw arbitrary: self acc)
  case Nil
  then show ?case by (simp add: accepted_records_def rejected_lines_def)
next
  case (Cons l raw)
  from parse_log_line_cases[of exc_text self l] show ?case
  proof
    assume "\<exists>smp. parse_log_line exc_text self l = (None, add_sample self smp) \<and>
          startswith smp (strip l)"
    then obtain smp where p: "parse_log_line exc_text self l = (None, add_sample self smp)"
      and sw: "startswith smp (strip l)" by blast
    from p have out: "parse_outcome (lt_year self) l = None"
      using parse_log_line_fst[of exc_text self l] by simp
    define s1 where "s1 = (add_sample self smp)\<lparr>lt_failed_count := lt_failed_count (add_sample self smp) + 1\<rparr>"
    have s1: "lt_year s1 = lt_year self" "lt_failed_count s1 = lt_failed_count self + 1"
      "lt_parsed_count s1 = lt_parsed_count self"
      "lt_failed_samples s1 = lt_failed_samples self @ (if lt_failed_count self < 5 then [smp] else [])"
      by (simp_all add: s1_def)
    from Cons.IH[of s1 acc] obtain self' new where
      IH: "transform_loop exc_text s1 raw acc = (acc @ accepted_records (lt_year s1) raw, self')"
        "lt_year self' = lt_year s1"
        "lt_failed_count self' = lt_failed_count s1 + length (rejected_lines (lt_year s1) raw)"
        "lt_parsed_count self' = lt_parsed_count s1 + length (accepted_records (lt_year s1) raw)"
        "lt_failed_samples self' = lt_failed_samples s1 @ new"
        "list_all2 (\<lambda>smp l. startswith smp (strip l)) new
           (take (5 - lt_failed_count s1) (rejected_lines (lt_year s1) raw))"
      by blast
    have step: "transform_loop exc_text self (l # raw) acc = transform_loop exc_text s1 raw acc"
      by (simp add: p s1_def del: add_sample_fields)
    have rej: "rejected_lines (lt_year self) (l # raw) = l # rejected_lines (lt_year self) raw"
      by (simp add: rejected_lines_def out)
    have acc: "accepted_records (lt_year self) (l # raw) = accepted_records (lt_year self) raw"
      by (simp add: accepted_records_def out)
    let ?new = "(if lt_failed_count self < 5 then [smp] else []) @ new"
    have l2: "list_all2 (\<lambda>smp l. startswith smp (strip l)) ?new
       (take (5 - lt_failed_count self) (l # rejected_lines (lt_year self) raw))"
    proof (cases "lt_failed_count self < 5")
      case True
      then obtain n where n: "5 - lt_failed_count self = Suc n" "5 - (lt_failed_count self + 1) = n"
        by (cases "5 - lt_failed_count self") auto
      with True IH(6) sw show ?thesis by (simp add: s1)
    next
      case False
      with IH(6) show ?thesis by (simp add: s1)
    qed
    show ?thesis
      apply (rule exI[of _ self'], rule exI[of _ ?new])
      unfolding step rej acc
      using IH l2 by (simp add: s1)
  next
    assume "\<exists>p. parse_log_line exc_text self l = (Some p, self)"
    then obtain p where p: "parse_log_line exc_text self l = (Some p, self)" by blast
    from p have out: "parse_outcome (lt_year self) l = Some p"
      using parse_log_line_fst[of exc_text self l] by simp
    define s1 where "s1 = self\<lparr>lt_parsed_count := lt_parsed_count self + 1\<rparr>"
    have s1: "lt_year s1 = lt_year self" "lt_failed_count s1 = lt_failed_count self"
      "lt_parsed_count s1 = lt_parsed_count self + 1"
      "lt_failed_samples s1 = lt_failed_samples self"
      by (simp_all add: s1_def)
    from Cons.IH[of s1 "acc @ [p]"] obtain self' new where
      IH: "transform_loop exc_text s1 raw (acc @ [p]) =
             ((acc @ [p]) @ accepted_records (lt_year s1) raw, self')"
        "lt_year self' = lt_year s1"
        "lt_failed_count self' = lt_failed_count s1 + length (rejected_lines (lt_year s1) raw)"
        "lt_parsed_count self' = lt_parsed_count s1 + length (accepted_records (lt_year s1) raw)"
        "lt_failed_samples self' = lt_failed_samples s1 @ new"
        "list_all2 (\<lambda>smp l. startswith smp (strip l)) new
           (take (5 - lt_failed_count s1) (rejected_lines (lt_year s1) raw))"
      by blast
    have step: "transform_loop exc_text self (l # raw) acc = transform_loop exc_text s1 raw (acc @ [p])"
      by (simp add: p s1_def)
    have rej: "rejected_lines (lt_year self) (l # raw) = rejected_lines (lt_year self) raw"
      by (simp add: rejected_lines_def out)
    have acc: "accepted_records (lt_year self) (l # raw) = p # accepted_records (lt_year self) raw"
      by (simp add: accepted_records_def out)
    show ?thesis
      apply (rule exI[of _ self'], rule exI[of _ new])
      unfolding step rej acc
      using IH by (simp add: s1)
  qed
qed

lemma accepted_rejected_length:
  "length (accepted_records yr raw) + length (rejected_lines yr raw) = length raw"
  by (induction raw) (auto simp: accepted_records_def rejected_lines_def split: option.splits)

text \<open>
  C9. Run \<open>transform_logs\<close> on a fresh transformer. The rows of the returned table are the
  records of the lines that \<open>parse_log_line\<close> accepts, in input order, so no rejected line
  contributes a row; every input line is either accepted or rejected; the failure count is
  the number of rejected lines; and the sample buffer has one entry for each of the first
  five rejected lines, in input order and no more: each entry is the stripped text of its
  line, followed by the error text when the date was refused.
\<close>

theorem C9_transform_logs:
  "(case transform_logs exc_text (LogTransformer_init year now_year) raw_logs of
      (df, self') \<Rightarrow>
        df = map to_event
               (accepted_records (lt_year (LogTransformer_init year now_year)) raw_logs) \<and>
        length df + length (rejected_lines (lt_year (LogTransformer_init year now_year)) raw_logs) =
          length raw_logs \<and>
        lt_failed_count self' =
          length (rejected_lines (lt_year (LogTransformer_init year now_year)) raw_logs) \<and>
        lt_parsed_count self' = length df \<and>
        length (lt_failed_samples self') =
          min 5 (length (rejected_lines (lt_year (LogTransformer_init year now_year)) raw_logs)) \<and>
        list_all2 (\<lambda>smp l. startswith smp (strip l)) (lt_failed_samples self')
          (take 5 (rejected_lines (lt_year (LogTransformer_init year now_year)) raw_logs)))"
proof -
  define self0 where "self0 = LogTransformer_init year now_year"
  have z: "lt_failed_count self0 = 0" "lt_parsed_count self0 = 0" "lt_failed_samples self0 = []"
    by (simp_all add: self0_def LogTransformer_init_def)
  from transform_loop_invariant[of exc_text self0 raw_logs "[]"] obtain self' new where
    inv: "transform_loop exc_text self0 raw_logs [] = ([] @ accepted_records (lt_year self0) raw_logs, self')"
      "lt_failed_count self' = lt_failed_count self0 + length (rejected_lines (lt_year self0) raw_logs)"
      "lt_parsed_count self' = lt_parsed_count self0 + length (accepted_records (lt_year self0) raw_logs)"
      "lt_failed_samples self' = lt_failed_samples self0 @ new"
      "list_all2 (\<lambda>smp l. startswith smp (strip l)) new
         (take (5 - lt_failed_count self0) (rejected_lines (lt_year self0) raw_logs))"
    by blast
  have res: "transform_logs exc_text self0 raw_logs =
      (map to_event (accepted_records (lt_year self0) raw_logs), self')"
    by (simp add: transform_logs_def inv(1))
  from inv(5) have l2: "list_all2 (\<lambda>smp l. startswith smp (strip l)) (lt_failed_samples self')
      (take 5 (rejected_lines (lt_year self0) raw_logs))"
    by (simp add: inv(4) z)
  from l2 have len: "length (lt_failed_samples self') =
      min 5 (length (rejected_lines (lt_year self0) raw_logs))"
    by (simp add: list_all2_lengthD min.commute)
  show ?thesis
    unfolding self0_def[symmetric] res
    using inv(2,3) l2 len accepted_rejected_length[of "lt_year self0" raw_logs]
    by (simp add: z)
qed

subsection \<open>Regular expressions: what the matcher finds\<close>

lemma plus_from_sound:
  "plus_from p s k = Some res \<Longrightarrow>
   \<exists>u s'. s = u @ s' \<and> u \<noteq> [] \<and> list_all p u \<and> k s' = Some res"
proof (induction s)
  case Nil
  then show ?case by simp
next
  case (Cons x xs)
  from Cons.prems have px: "p x" by (simp split: if_splits)
  show ?case
  proof (cases "plus_from p xs k")
    case None
    with Cons.prems px have "k xs = Some res" by simp
    with px show ?thesis by (intro exI[of _ "[x]"] exI[of _ xs]) simp
  next
    case (Some r)
    with Cons.prems px have "plus_from p xs k = Some res" by simp
    from Cons.IH[OF this] obtain u s' where
      "xs = u @ s'" "u \<noteq> []" "list_all p u" "k s' = Some res" by blast
    with px show ?thesis by (intro exI[of _ "x # u"] exI[of _ s']) simp
  qed
qed

lemma plus_from_complete:
  "u \<noteq> [] \<Longrightarrow> list_all p u \<Longrightarrow> k s' \<noteq> None \<Longrightarrow> plus_from p (u @ s') k \<noteq> None"
proof (induction u)
  case Nil
  then show ?case by simp
next
  case (Cons x u)
  show ?case
  proof (cases "u = []")
    case True
    with Cons.prems show ?thesis by (auto split: option.splits)
  next
    case False
    with Cons have "plus_from p (u @ s') k \<noteq> None" by simp
    with Cons.prems show ?thesis by (auto split: option.splits)
  qed
qed





subsection \<open>C10: the pattern is searched, not anchored\<close>






subsection \<open>Regular expressions: captures and determinacy\<close>

lemma mt_sound_caps:
  "mt r s c k = Some res \<Longrightarrow>
   \<exists>u s' ca. s = u @ s' \<and> (u, ca) \<in> caplang r \<and> k s' (ca @ c) = Some res"
proof (induction r arbitrary: s c k res)
  case Eps
  then show ?case by auto
next
  case (Cls p)
  then obtain x xs where x: "s = x # xs" "p x" "k xs c = Some res"
    by (cases s) (auto split: if_splits)
  then have "s = [x] @ xs \<and> ([x], []) \<in> caplang (Cls p) \<and> k xs ([] @ c) = Some res" by simp
  then show ?case by blast
next
  case (Plus p)
  then have "plus_from p s (\<lambda>s'. k s' c) = Some res" by simp
  from plus_from_sound[OF this] obtain u s' where
    "s = u @ s'" "u \<noteq> []" "list_all p u" "k s' c = Some res" by blast
  then have "s = u @ s' \<and> (u, []) \<in> caplang (Plus p) \<and> k s' ([] @ c) = Some res" by simp
  then show ?case by blast
next
  case (Cat a b)
  then have "mt a s c (\<lambda>s' c'. mt b s' c' k) = Some res" by simp
  from Cat.IH(1)[OF this] obtain u1 s1 ca1 where
    1: "s = u1 @ s1" "(u1, ca1) \<in> caplang a" "mt b s1 (ca1 @ c) k = Some res" by blast
  from Cat.IH(2)[OF 1(3)] obtain u2 s2 ca2 where
    2: "s1 = u2 @ s2" "(u2, ca2) \<in> caplang b" "k s2 (ca2 @ ca1 @ c) = Some res" by blast
  from 1 2 have "s = (u1 @ u2) @ s2 \<and> (u1 @ u2, ca2 @ ca1) \<in> caplang (Cat a b) \<and>
      k s2 ((ca2 @ ca1) @ c) = Some res"
    by auto
  then show ?case by blast
next
  case (Or a b)
  show ?case
  proof (cases "mt a s c k")
    case None
    with Or.prems have "mt b s c k = Some res" by simp
    from Or.IH(2)[OF this] show ?thesis by auto
  next
    case (Some r)
    with Or.prems have "mt a s c k = Some res" by simp
    from Or.IH(1)[OF this] show ?thesis by auto
  qed
next
  case (Grp i a)
  then have "mt a s c (\<lambda>s' c'. k s' ((i, take (length s - length s') s) # c')) = Some res"
    by simp
  from Grp.IH[OF this] obtain u s' ca where
    g: "s = u @ s'" "(u, ca) \<in> caplang a"
       "k s' ((i, take (length s - length s') s) # ca @ c) = Some res" by blast
  then have "s = u @ s' \<and> (u, (i, u) # ca) \<in> caplang (Grp i a) \<and>
      k s' (((i, u) # ca) @ c) = Some res" by simp
  then show ?case by blast
qed

lemma caplang_lang: "(u, ca) \<in> caplang r \<Longrightarrow> u \<in> lang r"
proof (induction r arbitrary: u ca)
  case (Cat a b)
  from Cat.prems obtain u1 u2 ca1 ca2 where
    c: "u = u1 @ u2" "(u1, ca1) \<in> caplang a" "(u2, ca2) \<in> caplang b" by auto
  from Cat.IH(1)[OF c(2)] Cat.IH(2)[OF c(3)] c(1) show ?case by auto
qed auto

lemma caplang_glang:
  "(u, ca) \<in> caplang r \<Longrightarrow> map_of ca i = Some w \<Longrightarrow> w \<in> glang r i"
proof (induction r arbitrary: u ca)
  case (Cat a b)
  from Cat.prems(1) obtain u1 u2 ca1 ca2 where
    c: "ca = ca2 @ ca1" "(u1, ca1) \<in> caplang a" "(u2, ca2) \<in> caplang b" by auto
  show ?case
  proof (cases "map_of ca2 i")
    case None
    with Cat.prems(2) c(1) have "map_of ca1 i = Some w" by (simp add: map_add_def)
    from Cat.IH(1)[OF c(2) this] show ?thesis by simp
  next
    case (Some w')
    with Cat.prems(2) c(1) have "map_of ca2 i = Some w" by (simp add: map_add_def)
    from Cat.IH(2)[OF c(3) this] show ?thesis by simp
  qed
next
  case (Grp j a)
  from Grp.prems(1) obtain ca1 where c: "ca = (j, u) # ca1" "(u, ca1) \<in> caplang a" by auto
  show ?case
  proof (cases "i = j")
    case True
    with Grp.prems(2) c(1) have "w = u" by simp
    with True caplang_lang[OF c(2)] show ?thesis by simp
  next
    case False
    with Grp.prems(2) c(1) have "map_of ca1 i = Some w" by simp
    from Grp.IH[OF c(2) this] show ?thesis by simp
  qed
qed auto

lemma caplang_must:
  "(u, ca) \<in> caplang r \<Longrightarrow> i \<in> must_groups r \<Longrightarrow> map_of ca i \<noteq> None"
proof (induction r arbitrary: u ca)
  case (Cat a b)
  from Cat.prems(1) obtain u1 u2 ca1 ca2 where
    c: "ca = ca2 @ ca1" "(u1, ca1) \<in> caplang a" "(u2, ca2) \<in> caplang b" by auto
  from Cat.prems(2) have "i \<in> must_groups a \<or> i \<in> must_groups b" by simp
  then show ?case
  proof
    assume "i \<in> must_groups a"
    from Cat.IH(1)[OF c(2) this] show ?thesis
      by (auto simp: c(1) map_add_def split: option.splits)
  next
    assume "i \<in> must_groups b"
    from Cat.IH(2)[OF c(3) this] show ?thesis
      by (auto simp: c(1) map_add_def split: option.splits)
  qed
qed auto

lemma search_sound_caps:
  "search r s = Some m \<Longrightarrow> \<exists>pre u post. s = pre @ u @ post \<and> (u, m) \<in> caplang r"
proof (induction s)
  case Nil
  then have "mt r [] [] (\<lambda>s' c. Some c) = Some m" by simp
  from mt_sound_caps[OF this] obtain u s' ca where
    "[] = u @ s'" "(u, ca) \<in> caplang r" "Some (ca @ []) = Some m" by blast
  then have "[] = [] @ u @ [] \<and> (u, m) \<in> caplang r" by simp
  then show ?case by blast
next
  case (Cons x xs)
  show ?case
  proof (cases "mt r (x # xs) [] (\<lambda>s' c. Some c)")
    case None
    with Cons.prems have "search r xs = Some m" by simp
    from Cons.IH[OF this] obtain pre u post where "xs = pre @ u @ post" "(u, m) \<in> caplang r"
      by blast
    then have "x # xs = (x # pre) @ u @ post \<and> (u, m) \<in> caplang r" by simp
    then show ?thesis by blast
  next
    case (Some c)
    with Cons.prems have "mt r (x # xs) [] (\<lambda>s' c. Some c) = Some m" by simp
    from mt_sound_caps[OF this] obtain u s' ca where
      "x # xs = u @ s'" "(u, ca) \<in> caplang r" "Some (ca @ []) = Some m" by blast
    then have "x # xs = [] @ u @ s' \<and> (u, m) \<in> caplang r" by simp
    then show ?thesis by blast
  qed
qed

lemma search_group:
  assumes "search r s = Some m" "i \<in> must_groups r"
  shows "group m i \<in> glang r i"
proof -
  from search_sound_caps[OF assms(1)] obtain u where u: "(u, m) \<in> caplang r" by blast
  from caplang_must[OF u assms(2)] obtain w where w: "map_of m i = Some w" by auto
  from caplang_glang[OF u w] w show ?thesis by (simp add: group_def)
qed

lemma caplang_gfree: "gfree r \<Longrightarrow> (u, ca) \<in> caplang r \<Longrightarrow> ca = []"
  by (induction r arbitrary: u ca) auto

lemma mt_sound_gfree:
  assumes "gfree r" "mt r s c k = Some res"
  shows "\<exists>u s'. s = u @ s' \<and> u \<in> lang r \<and> k s' c = Some res"
proof -
  from mt_sound_caps[OF assms(2)] obtain u s' ca where
    m: "s = u @ s'" "(u, ca) \<in> caplang r" "k s' (ca @ c) = Some res" by blast
  from caplang_gfree[OF assms(1) m(2)] have "ca = []" .
  with m caplang_lang[OF m(2)] show ?thesis by auto
qed

lemma mt_complete_gfree:
  "gfree r \<Longrightarrow> u \<in> lang r \<Longrightarrow> k s' c \<noteq> None \<Longrightarrow> mt r (u @ s') c k \<noteq> None"
proof (induction r arbitrary: u s' k)
  case Eps
  then show ?case by simp
next
  case (Cls p)
  then show ?case by auto
next
  case (Plus p)
  then show ?case by (simp add: plus_from_complete)
next
  case (Cat a b)
  from Cat.prems(2) obtain u1 u2 where u: "u = u1 @ u2" "u1 \<in> lang a" "u2 \<in> lang b" by auto
  from Cat.prems(1) have g: "gfree a" "gfree b" by simp_all
  have "mt b (u2 @ s') c k \<noteq> None"
    using Cat.IH(2)[where k = k and s' = s' and u = u2] g(2) u(3) Cat.prems(3) by blast
  then have "mt a (u1 @ (u2 @ s')) c (\<lambda>s c. mt b s c k) \<noteq> None"
    using Cat.IH(1)[where k = "\<lambda>s c. mt b s c k" and s' = "u2 @ s'" and u = u1] g(1) u(2)
    by blast
  then show ?case by (simp add: u(1))
next
  case (Or a b)
  from Or.prems(1) have g: "gfree a" "gfree b" by simp_all
  from Or.prems(2) have "u \<in> lang a \<or> u \<in> lang b" by simp
  then show ?case
  proof
    assume "u \<in> lang a"
    then have "mt a (u @ s') c k \<noteq> None"
      using Or.IH(1)[where k = k and s' = s' and u = u] g(1) Or.prems(3) by blast
    then show ?thesis by (auto split: option.splits)
  next
    assume "u \<in> lang b"
    then have "mt b (u @ s') c k \<noteq> None"
      using Or.IH(2)[where k = k and s' = s' and u = u] g(2) Or.prems(3) by blast
    then show ?thesis by (auto split: option.splits)
  qed
next
  case (Grp i a)
  then show ?case by simp
qed

text \<open>
  A group around an expression without inner groups, in front of a continuation that
  refuses every other way to cut the input: the group takes exactly the token.
\<close>

lemma mt_group_exact:
  assumes g: "gfree r0"
    and H: "\<And>u s'. u \<in> lang r0 \<Longrightarrow> tok @ rest = u @ s' \<Longrightarrow> u \<noteq> tok \<Longrightarrow>
              k s' ((i, u) # c) = None"
  shows "mt (Grp i r0) (tok @ rest) c k =
           (if tok \<in> lang r0 then k rest ((i, tok) # c) else None)"
proof -
  define k' where
    "k' = (\<lambda>s' c'. k s' ((i, take (length (tok @ rest) - length s') (tok @ rest)) # c'))"
  have k'_eq: "k' s' c = k s' ((i, u) # c)" if "tok @ rest = u @ s'" for u s'
    using that by (simp add: k'_def)
  have m: "mt (Grp i r0) (tok @ rest) c k = mt r0 (tok @ rest) c k'"
    by (simp add: k'_def)
  show ?thesis
  proof (cases "mt r0 (tok @ rest) c k'")
    case None
    show ?thesis
    proof (cases "tok \<in> lang r0")
      case True
      have "k' rest c = None"
      proof (rule ccontr)
        assume "k' rest c \<noteq> None"
        then have "mt r0 (tok @ rest) c k' \<noteq> None"
          using mt_complete_gfree[where k = k' and s' = rest and u = tok and r = r0 and c = c] g True
          by blast
        with None show False by simp
      qed
      then have "k rest ((i, tok) # c) = None" using k'_eq[of tok rest] by simp
      with None True m show ?thesis by simp
    next
      case False
      with None m show ?thesis by simp
    qed
  next
    case (Some res)
    from mt_sound_gfree[OF g Some] obtain u s' where
      u: "tok @ rest = u @ s'" "u \<in> lang r0" "k' s' c = Some res" by blast
    from u(3) k'_eq[OF u(1)] have ks: "k s' ((i, u) # c) = Some res" by simp
    have "u = tok"
    proof (rule ccontr)
      assume "u \<noteq> tok"
      from H[OF u(2) u(1) this] ks show False by simp
    qed
    with u(1) have "s' = rest" by simp
    with \<open>u = tok\<close> u(2) ks Some m show ?thesis by simp
  qed
qed

text \<open>The usual reason for that: the token is followed by a character no match can contain.\<close>

lemma delimited_token:
  assumes Q: "\<And>u. u \<in> lang r0 \<Longrightarrow> u \<noteq> [] \<Longrightarrow> hd u = hd tok \<Longrightarrow> list_all Q u"
    and tok: "tok \<noteq> []"
    and d: "\<not> Q d"
    and kf: "\<And>x xs c'. x \<in> set tok \<Longrightarrow> k (x # xs) c' = None"
    and u: "u \<in> lang r0" "tok @ d # rest = u @ s'" "u \<noteq> tok"
  shows "k s' c' = None"
proof -
  from u(2) obtain w where
    "(tok = u @ w \<and> s' = w @ d # rest) \<or> (u = tok @ w \<and> d # rest = w @ s')"
    by (auto simp: append_eq_append_conv2)
  then show ?thesis
  proof
    assume a: "tok = u @ w \<and> s' = w @ d # rest"
    with u(3) obtain x xs where w: "w = x # xs" by (cases w) auto
    with a have "x \<in> set tok" "s' = x # (xs @ d # rest)" by auto
    with kf show ?thesis by simp
  next
    assume a: "u = tok @ w \<and> d # rest = w @ s'"
    with u(3) obtain x xs where w: "w = x # xs" by (cases w) auto
    with a have dx: "x = d" by simp
    from a tok have "u \<noteq> []" "hd u = hd tok" by auto
    from Q[OF u(1) this] have "list_all Q u" .
    with a w dx have "Q d" by (simp add: list_all_iff)
    with d show ?thesis by simp
  qed
qed

subsection \<open>The pieces of the date format\<close>

lemma lang_seq2 [simp]:
  "(w \<in> lang (seq [Cls p, Cls q])) = (\<exists>x y. w = [x, y] \<and> p x \<and> q y)"
proof
  assume "w \<in> lang (seq [Cls p, Cls q])"
  then show "\<exists>x y. w = [x, y] \<and> p x \<and> q y" by (auto simp: seq_def)
next
  assume "\<exists>x y. w = [x, y] \<and> p x \<and> q y"
  then obtain x y where w: "w = [x, y]" "p x" "q y" by blast
  have "\<exists>u v. [x, y] = u @ v \<and> (\<exists>x. u = [x] \<and> p x) \<and> (\<exists>x. v = [x] \<and> q x)"
    by (rule exI[of _ "[x]"], rule exI[of _ "[y]"]) (simp add: w)
  then show "w \<in> lang (seq [Cls p, Cls q])" by (simp add: seq_def w)
qed

lemma lang_Cls [simp]: "(w \<in> lang (Cls p)) = (\<exists>x. w = [x] \<and> p x)"
  by simp

lemma digits_value_1: "digits_value 0 [a] = digit_val a"
  by (simp add: digits_value_def)

lemma digits_value_2: "digits_value 0 [a, b] = 10 * digit_val a + digit_val b"
  by (simp add: digits_value_def)

lemma digit_cases:
  assumes "is_digit a"
  obtains "a = CHR ''0''" | "a = CHR ''1''" | "a = CHR ''2''" | "a = CHR ''3''" | "a = CHR ''4''"
    | "a = CHR ''5''" | "a = CHR ''6''" | "a = CHR ''7''" | "a = CHR ''8''" | "a = CHR ''9''"
  using assms by (auto simp: is_digit_def)

lemma day_two:
  assumes "is_digit a" "is_digit b"
  shows "([a, b] \<in> lang day_rx) = (1 \<le> digits_value 0 [a, b] \<and> digits_value 0 [a, b] \<le> 31)"
  using assms(1)
  by (cases a rule: digit_cases; use assms(2) in \<open>cases b rule: digit_cases\<close>;
      simp add: day_rx_def one_of_def digits_value_2 digit_val_def is_digit_def)

lemma day_one:
  assumes "is_digit a"
  shows "([a] \<in> lang day_rx) = (1 \<le> digits_value 0 [a] \<and> digits_value 0 [a] \<le> 31)"
  using assms
  by (cases a rule: digit_cases;
      simp add: day_rx_def one_of_def digits_value_1 digit_val_def is_digit_def)

lemma day_len: "w \<in> lang day_rx \<Longrightarrow> length w \<le> 2"
  by (auto simp: day_rx_def one_of_def)

lemma hour_one: "is_digit a \<Longrightarrow> ([a] \<in> lang hour_rx) = (digits_value 0 [a] \<le> 23)"
  by (cases a rule: digit_cases;
      simp add: hour_rx_def one_of_def digits_value_1 digit_val_def is_digit_def)

lemma hour_two:
  assumes "is_digit a" "is_digit b"
  shows "([a, b] \<in> lang hour_rx) = (digits_value 0 [a, b] \<le> 23)"
  using assms(1)
  by (cases a rule: digit_cases; use assms(2) in \<open>cases b rule: digit_cases\<close>;
      simp add: hour_rx_def one_of_def digits_value_2 digit_val_def is_digit_def)

lemma hour_len: "w \<in> lang hour_rx \<Longrightarrow> length w \<le> 2"
  by (auto simp: hour_rx_def one_of_def)

lemma minute_one: "is_digit a \<Longrightarrow> ([a] \<in> lang minute_rx) = (digits_value 0 [a] \<le> 59)"
  by (cases a rule: digit_cases;
      simp add: minute_rx_def one_of_def digits_value_1 digit_val_def is_digit_def)

lemma minute_two:
  assumes "is_digit a" "is_digit b"
  shows "([a, b] \<in> lang minute_rx) = (digits_value 0 [a, b] \<le> 59)"
  using assms(1)
  by (cases a rule: digit_cases; use assms(2) in \<open>cases b rule: digit_cases\<close>;
      simp add: minute_rx_def one_of_def digits_value_2 digit_val_def is_digit_def)

lemma minute_len: "w \<in> lang minute_rx \<Longrightarrow> length w \<le> 2"
  by (auto simp: minute_rx_def one_of_def)

text \<open>A token of digits is in the language of a field exactly when its value is in range.\<close>

lemma token_shape:
  assumes "tok \<noteq> []"
  obtains a where "tok = [a]" | a b where "tok = [a, b]" | "2 < length tok"
proof (cases tok)
  case Nil
  with assms show ?thesis by simp
next
  case (Cons a t)
  show ?thesis
  proof (cases t)
    case Nil
    with Cons that(1) show ?thesis by simp
  next
    case (Cons b t')
    show ?thesis
    proof (cases t')
      case Nil
      with \<open>tok = a # t\<close> \<open>t = b # t'\<close> that(2) show ?thesis by simp
    next
      case (Cons x t'')
      with \<open>tok = a # t\<close> \<open>t = b # t'\<close> that(3) show ?thesis by simp
    qed
  qed
qed

lemma day_lang:
  assumes "tok \<noteq> []" "list_all is_digit tok"
  shows "(tok \<in> lang day_rx) =
         (length tok \<le> 2 \<and> 1 \<le> digits_value 0 tok \<and> digits_value 0 tok \<le> 31)"
proof (rule token_shape[OF assms(1)])
  fix a assume "tok = [a]"
  with assms(2) day_one[of a] show ?thesis by simp
next
  fix a b assume "tok = [a, b]"
  with assms(2) day_two[of a b] show ?thesis by simp
next
  assume "2 < length tok"
  with day_len[of tok] show ?thesis by auto
qed

lemma hour_lang:
  assumes "tok \<noteq> []" "list_all is_digit tok"
  shows "(tok \<in> lang hour_rx) = (length tok \<le> 2 \<and> digits_value 0 tok \<le> 23)"
proof (rule token_shape[OF assms(1)])
  fix a assume "tok = [a]"
  with assms(2) hour_one[of a] show ?thesis by simp
next
  fix a b assume "tok = [a, b]"
  with assms(2) hour_two[of a b] show ?thesis by simp
next
  assume "2 < length tok"
  with hour_len[of tok] show ?thesis by auto
qed

lemma minute_lang:
  assumes "tok \<noteq> []" "list_all is_digit tok"
  shows "(tok \<in> lang minute_rx) = (length tok \<le> 2 \<and> digits_value 0 tok \<le> 59)"
proof (rule token_shape[OF assms(1)])
  fix a assume "tok = [a]"
  with assms(2) minute_one[of a] show ?thesis by simp
next
  fix a b assume "tok = [a, b]"
  with assms(2) minute_two[of a b] show ?thesis by simp
next
  assume "2 < length tok"
  with minute_len[of tok] show ?thesis by auto
qed

text \<open>
  The seconds stand last, in front of the end of the text: the first alternative that
  matches decides, and the text is used up exactly when the token has one or two digits
  and a value of at most 61.
\<close>

lemma second_one:
  "is_digit a \<Longrightarrow>
   mt (Grp 6 second_rx) [a] c (\<lambda>s' c'. Some (s', c')) = Some ([], (6, [a]) # c)"
  by (cases a rule: digit_cases; simp add: second_rx_def one_of_def seq_def is_digit_def)

lemma second_two:
  assumes "is_digit a" "is_digit b"
  shows "mt (Grp 6 second_rx) [a, b] c (\<lambda>s' c'. Some (s', c')) =
         (if digits_value 0 [a, b] \<le> 61 then Some ([], (6, [a, b]) # c)
          else Some ([b], (6, [a]) # c))"
  using assms(1)
  by (cases a rule: digit_cases; use assms(2) in \<open>cases b rule: digit_cases\<close>;
      simp add: second_rx_def one_of_def seq_def digits_value_2 digit_val_def is_digit_def)

lemma second_long:
  assumes "is_digit a"
  shows "\<exists>rest w. mt (Grp 6 second_rx) (a # b # x # xs) c (\<lambda>s' c'. Some (s', c')) =
           Some (rest, (6, w) # c) \<and> rest \<noteq> []"
  using assms
  by (cases a rule: digit_cases; simp add: second_rx_def one_of_def seq_def is_digit_def)

lemma second_stage:
  assumes "tok \<noteq> []" "list_all is_digit tok"
  shows "\<exists>rest w. mt (Grp 6 second_rx) tok c (\<lambda>s' c'. Some (s', c')) = Some (rest, (6, w) # c) \<and>
           (rest = [] \<longrightarrow> w = tok) \<and>
           (rest = []) = (length tok \<le> 2 \<and> digits_value 0 tok \<le> 61)"
proof (rule token_shape[OF assms(1)])
  fix a assume 1: "tok = [a]"
  with assms(2) have d: "is_digit a" by simp
  have "digits_value 0 [a] \<le> 61"
    using d by (cases a rule: digit_cases) (simp_all add: digits_value_1 digit_val_def)
  with second_one[OF d, of c] 1 show ?thesis by simp
next
  fix a b assume 2: "tok = [a, b]"
  with assms(2) have d: "is_digit a" "is_digit b" by simp_all
  from second_two[OF d, of c] 2 show ?thesis by simp
next
  assume "2 < length tok"
  then obtain a b x xs where t: "tok = a # b # x # xs"
    by (cases tok; cases "tl tok"; cases "tl (tl tok)") auto
  with assms(2) have d: "is_digit a" by simp
  from second_long[OF d, of b x xs c] t show ?thesis by auto
qed

lemma space_code: "is_space x \<Longrightarrow> (of_char x :: nat) \<le> 32 \<or> (of_char x :: nat) = 133 \<or> (of_char x :: nat) = 160"
  by (auto simp: is_space_def)

lemma alpha_not_space: "is_alpha x \<Longrightarrow> \<not> is_space x"
proof
  assume a: "is_alpha x" and s: "is_space x"
  from space_code[OF s] a show False
    unfolding is_alpha_def Let_def by arith
qed

lemma word_not_space: "is_word x \<Longrightarrow> \<not> is_space x"
proof
  assume w: "is_word x" and s: "is_space x"
  from w have "is_alpha x \<or> is_digit x \<or> x = CHR ''_'' \<or>
      (of_char x :: nat) = 178 \<or> (of_char x :: nat) = 179 \<or> (of_char x :: nat) = 185 \<or>
      (of_char x :: nat) = 188 \<or> (of_char x :: nat) = 189 \<or> (of_char x :: nat) = 190"
    by (simp add: is_word_def Let_def)
  moreover have "\<not> is_space CHR ''_''" by (simp add: is_space_def)
  ultimately show False
    using s alpha_not_space[of x] not_space_digit[of x] space_code[OF s] by auto
qed

lemma blank_lower: "lower_of CHR '' '' = CHR '' ''"
  by (simp add: lower_of_def)
lemma is_space_blank: "is_space CHR '' ''"
  by (simp add: is_space_def)

lemma lang_alts: "lang (alts rs) = \<Union> (lang ` set rs)"
  by (induction rs rule: alts.induct) auto

lemma lang_Cat_Cls: "(u \<in> lang (Cat (Cls p) r)) = (\<exists>x v. u = x # v \<and> p x \<and> v \<in> lang r)"
proof
  assume "u \<in> lang (Cat (Cls p) r)"
  then show "\<exists>x v. u = x # v \<and> p x \<and> v \<in> lang r" by auto
next
  assume "\<exists>x v. u = x # v \<and> p x \<and> v \<in> lang r"
  then obtain x v where u: "u = x # v" "p x" "v \<in> lang r" by blast
  have "\<exists>a b. x # v = a @ b \<and> (\<exists>y. a = [y] \<and> p y) \<and> b \<in> lang r"
    by (rule exI[of _ "[x]"], rule exI[of _ v]) (simp add: u)
  then show "u \<in> lang (Cat (Cls p) r)" by (simp add: u)
qed

lemma lang_ci_lit: "(u \<in> lang (ci_lit w)) = (map lower_of u = w)"
proof (induction w arbitrary: u)
  case Nil
  then show ?case by (simp add: ci_lit_def seq_def)
next
  case (Cons ch w)
  have IH: "(v \<in> lang (seq (map (\<lambda>ch. Cls (\<lambda>x. lower_of x = ch)) w))) = (map lower_of v = w)" for v
    using Cons.IH[of v] by (simp add: ci_lit_def)
  have "(u \<in> lang (ci_lit (ch # w))) =
        (\<exists>x v. u = x # v \<and> lower_of x = ch \<and>
               v \<in> lang (seq (map (\<lambda>ch. Cls (\<lambda>x. lower_of x = ch)) w)))"
    unfolding ci_lit_def seq_def by (simp only: list.map foldr.simps comp_def lang_Cat_Cls)
  also have "\<dots> = (map lower_of u = ch # w)"
    by (cases u) (auto simp: IH)
  finally show ?case .
qed

lemma index_of_None: "(index_of xs y = None) = (y \<notin> set xs)"
  by (induction xs) auto

lemma month_lang: "(mon \<in> lang month_rx) = (month_number mon \<noteq> None)"
  by (simp add: month_rx_def lang_alts lang_ci_lit month_number_def index_of_None)

lemma month_no_blank:
  assumes "u \<in> lang month_rx"
  shows "list_all (\<lambda>x. x \<noteq> CHR '' '') u"
proof -
  from assms have m: "map lower_of u \<in> set month_names"
    by (simp add: month_rx_def lang_alts lang_ci_lit)
  have "CHR '' '' \<notin> set u"
  proof
    assume "CHR '' '' \<in> set u"
    then have "lower_of CHR '' '' \<in> set (map lower_of u)" by (simp del: blank_lower)
    then have "CHR '' '' \<in> set (map lower_of u)" by (simp only: blank_lower)
    with m have "\<exists>w \<in> set month_names. CHR '' '' \<in> set w" by blast
    then show False by (simp add: month_names_def)
  qed
  then show ?thesis by (auto simp: list_all_iff)
qed

end
